theory Spec2Isabelle
  imports Complex_Main "HOL-Library.Multiset" "HOL-Library.Sublist" "HOL-Library.AList"
begin

section \<open>Python values, dictionaries and errors\<close>

text \<open>
  The source works on untyped dictionaries and lists. A dictionary is an association
  list in insertion order; \<open>d[k]\<close> on a missing key raises \<open>KeyError\<close>, \<open>xs[i]\<close>
  out of range raises \<open>IndexError\<close>, and negative indices count from the end.
\<close>

datatype error = IndexError | KeyError | TypeError | AttributeError

definition bnd :: "error + 'a \<Rightarrow> ('a \<Rightarrow> error + 'b) \<Rightarrow> error + 'b" where
  "bnd m f = (case m of Inl e \<Rightarrow> Inl e | Inr v \<Rightarrow> f v)"

definition py_index :: "nat \<Rightarrow> int \<Rightarrow> error + nat" where
  "py_index n i =
     (if 0 \<le> i \<and> i < int n then Inr (nat i)
      else if - int n \<le> i \<and> i < 0 then Inr (nat (int n + i))
      else Inl IndexError)"

definition getitem :: "(string \<times> 'v) list \<Rightarrow> string \<Rightarrow> error + 'v" where
  "getitem d k = (case map_of d k of None \<Rightarrow> Inl KeyError | Some v \<Rightarrow> Inr v)"

section \<open>Molecular graphs (\<open>get_atoms_and_bonds\<close>, utils.py)\<close>

definition BOND_TO_INT :: "(string \<times> int) list" where
  "BOND_TO_INT =
     [([], 0), (''single'', 1), (''double'', 2), (''triple'', 3), (''aromatic'', 4),
      (''solid wedge'', 5), (''dashed wedge'', 6)]"

text \<open>What the structure recogniser returns for one molecule image.\<close>

record atom =
  atom_symbol :: string
  atom_x :: real
  atom_y :: real

record bond =
  endpoint_atoms :: "int \<times> int"
  bond_type :: string

record mol_output =
  atoms :: "atom list"
  bonds :: "bond list"

text \<open>
  \<open>edges[i][j] = v\<close>: the row is looked up first, then the column is assigned; both
  indices follow Python's rules.
\<close>

definition set_edge :: "int list list \<Rightarrow> int \<Rightarrow> int \<Rightarrow> int \<Rightarrow> error + int list list" where
  "set_edge edges i j v =
     bnd (py_index (length edges) i) (\<lambda>a.
     bnd (py_index (length (edges ! a)) j) (\<lambda>b.
     Inr (edges[a := (edges ! a)[b := v]])))"

text \<open>The body of the loop over \<open>mol['bonds']\<close>: two assignments, the right-hand side first.\<close>

definition add_bond :: "int list list \<Rightarrow> bond \<Rightarrow> error + int list list" where
  "add_bond edges b =
     (case endpoint_atoms b of (i, j) \<Rightarrow>
        bnd (getitem BOND_TO_INT (bond_type b)) (\<lambda>v.
        bnd (set_edge edges i j v) (\<lambda>edges1.
        bnd (getitem BOND_TO_INT (bond_type b)) (\<lambda>w.
        set_edge edges1 j i w))))"

fun add_bonds :: "int list list \<Rightarrow> bond list \<Rightarrow> error + int list list" where
  "add_bonds edges [] = Inr edges"
| "add_bonds edges (b # bs) = bnd (add_bond edges b) (\<lambda>edges1. add_bonds edges1 bs)"

text \<open>
  Values stored in the dictionaries of a reaction: \<open>None\<close>, a string, or an object the
  core only passes on (a bounding box, a score, an image).
\<close>

datatype val = VNone | VStr string | VObj nat

type_synonym entity = "(string \<times> val) list"

text \<open>An element of a reaction's lists is a dictionary or, after table expansion, a list.\<close>

datatype item = Ent entity | Sub "item list"

type_synonym reaction = "(string \<times> item list) list"

text \<open>
  A graph dictionary; \<open>chartok_coords\<close> is flattened into \<open>coords\<close> and \<open>symbols\<close>.
  The cropped image is determined by the figure and the bounding box, so \<open>image\<close> holds
  the bounding box value.
\<close>

record graph =
  image :: val
  coords :: "(real \<times> real) list"
  symbols :: "string list"
  edges :: "int list list"
  key :: "string \<times> nat"

text \<open>The first loop: one empty graph for every dictionary of category \<open>[Mol]\<close>.\<close>

definition init_graph :: "string \<Rightarrow> nat \<Rightarrow> item \<Rightarrow> error + graph option" where
  "init_graph k i elt =
     (case elt of
        Sub _ \<Rightarrow> Inr None
      | Ent d \<Rightarrow>
          bnd (getitem d ''category'') (\<lambda>c.
          if c \<noteq> VStr ''[Mol]'' then Inr None
          else bnd (getitem d ''bbox'') (\<lambda>b.
               Inr (Some \<lparr>image = b, coords = [], symbols = [], edges = [], key = (k, i)\<rparr>))))"

fun collect_mols :: "string \<Rightarrow> nat \<Rightarrow> item list \<Rightarrow> error + graph list" where
  "collect_mols k i [] = Inr []"
| "collect_mols k i (elt # elts) =
     bnd (init_graph k i elt) (\<lambda>g.
     bnd (collect_mols k (Suc i) elts) (\<lambda>gs.
     Inr (case g of None \<Rightarrow> gs | Some g' \<Rightarrow> g' # gs)))"

fun collect_reaction :: "reaction \<Rightarrow> error + graph list" where
  "collect_reaction [] = Inr []"
| "collect_reaction ((k, molecules) # rest) =
     bnd (collect_mols k 0 molecules) (\<lambda>gs.
     bnd (collect_reaction rest) (\<lambda>gs'. Inr (gs @ gs')))"

text \<open>The second loop, for one pair of \<open>zip(outputs, results)\<close>.\<close>

definition fill_graph :: "mol_output \<Rightarrow> graph \<Rightarrow> error + graph" where
  "fill_graph mol result =
     (let n = length (atoms mol) in
      bnd (add_bonds (replicate n (replicate n 0)) (bonds mol)) (\<lambda>e.
      Inr (result\<lparr>coords := coords result @ map (\<lambda>a. (atom_x a, atom_y a)) (atoms mol),
                  symbols := symbols result @ map atom_symbol (atoms mol),
                  edges := e\<rparr>)))"

fun fill_graphs :: "mol_output list \<Rightarrow> graph list \<Rightarrow> error + graph list" where
  "fill_graphs (mol # mols) (result # results) =
     bnd (fill_graph mol result) (\<lambda>g.
     bnd (fill_graphs mols results) (\<lambda>gs. Inr (g # gs)))"
| "fill_graphs mols results = Inr results"

text \<open>
  \<open>predict_images\<close> is the external recogniser (\<open>molscribe.predict_images\<close>), applied to
  the crops in order.
\<close>

definition get_atoms_and_bonds :: "(val list \<Rightarrow> mol_output list) \<Rightarrow> reaction \<Rightarrow> error + graph list" where
  "get_atoms_and_bonds predict_images reaction =
     bnd (collect_reaction reaction) (\<lambda>results.
     fill_graphs (predict_images (map image results)) results)"

section \<open>Subset enumeration (\<open>generate_subsets\<close>, utils.py)\<close>

text \<open>
  The source keeps two mutable lists: \<open>subsets\<close>, the output, and \<open>subset\<close>, the
  current prefix. \<open>backtrack(start, subset)\<close> appends a copy of the prefix to the output
  and then, for every \<open>i\<close> of \<open>range(start, n)\<close>, pushes \<open>i\<close>, recurses with
  \<open>i + 1\<close> and pops. The state pair below is \<open>(subsets, cur)\<close>, \<open>cur\<close> standing for the
  source's \<open>subset\<close>.
\<close>

function backtrack :: "nat \<Rightarrow> nat \<Rightarrow> nat list list \<times> nat list \<Rightarrow> nat list list \<times> nat list" where
  "backtrack n start (subsets, cur) =
     fold (\<lambda>i (ss, s). case backtrack n (Suc i) (ss, s @ [i]) of (ss', s') \<Rightarrow> (ss', butlast s'))
          [start..<n] (subsets @ [cur], cur)"
  by pat_completeness auto
termination
  by (relation "measure (\<lambda>(n, start, st). n - start)") auto

definition generate_subsets :: "nat \<Rightarrow> nat list list" where
  "generate_subsets n = fst (backtrack n 0 ([], []))"

text \<open>
  The order in which \<open>backtrack\<close> emits the prefixes, without the mutable state: the
  prefix itself, then the emissions of every extension in increasing order.
\<close>

function visit :: "nat \<Rightarrow> nat \<Rightarrow> nat list \<Rightarrow> nat list list" where
  "visit n start s = s # concat (map (\<lambda>i. visit n (Suc i) (s @ [i])) [start..<n])"
  by pat_completeness auto
termination
  by (relation "measure (\<lambda>(n, start, s). n - start)") auto


text \<open>The shape invariants of an adjacency matrix.\<close>

definition square :: "nat \<Rightarrow> int list list \<Rightarrow> bool" where
  "square n m \<longleftrightarrow> length m = n \<and> (\<forall>row \<in> set m. length row = n)"

definition symmetric :: "int list list \<Rightarrow> bool" where
  "symmetric m \<longleftrightarrow> (\<forall>i < length m. \<forall>j < length m. m ! i ! j = m ! j ! i)"

definition graph_ok :: "graph \<Rightarrow> bool" where
  "graph_ok g \<longleftrightarrow> square (length (symbols g)) (edges g) \<and> symmetric (edges g)"

text \<open>A reaction with one molecule and a recogniser that finds two bonded atoms.\<close>

definition ex_mol_entity :: entity where
  "ex_mol_entity = [(''category'', VStr ''[Mol]''), (''bbox'', VObj 0)]"

definition ex_reaction :: reaction where
  "ex_reaction = [(''reactants'', [Ent ex_mol_entity]), (''conditions'', []), (''products'', [])]"

definition ex_predict_images :: "val list \<Rightarrow> mol_output list" where
  "ex_predict_images crops =
     map (\<lambda>_. \<lparr>atoms = [\<lparr>atom_symbol = ''C'', atom_x = 0, atom_y = 0\<rparr>,
                          \<lparr>atom_symbol = ''[R]'', atom_x = 1, atom_y = 0\<rparr>],
                 bonds = [\<lparr>endpoint_atoms = (0, 1), bond_type = ''single''\<rparr>]\<rparr>) crops"

definition ex_graph :: graph where
  "ex_graph = \<lparr>image = VObj 0, coords = [(0, 0), (1, 0)], symbols = [''C'', ''[R]''],
               edges = [[0, 1], [1, 0]], key = (''reactants'', 0)\<rparr>"

section \<open>Regular expressions of the source\<close>

text \<open>
  The fragment of Python's \<open>re\<close> that the source's patterns use: character classes,
  greedy \<open>+\<close> on a class, greedy \<open>?\<close>, sequence, named groups and the end anchor. A
  match state is the remaining input and the groups captured so far; \<open>rx_match\<close> lists
  the states after a match in the order in which a backtracking matcher tries them, so
  the head is the match that Python reports. Characters are ASCII.
\<close>

datatype rx =
    Cls "char \<Rightarrow> bool"
  | Plus "char \<Rightarrow> bool"
  | Opt rx
  | Seq rx rx
  | Grp string rx
  | Eos

type_synonym mstate = "string \<times> (string \<times> string) list"

fun rx_match :: "rx \<Rightarrow> mstate \<Rightarrow> mstate list" where
  "rx_match (Cls p) (s, g) = (case s of [] \<Rightarrow> [] | c # cs \<Rightarrow> if p c then [(cs, g)] else [])"
| "rx_match (Plus p) (s, g) = map (\<lambda>k. (drop k s, g)) (rev [1..<Suc (length (takeWhile p s))])"
| "rx_match (Opt r) st = rx_match r st @ [st]"
| "rx_match (Seq r1 r2) st = concat (map (rx_match r2) (rx_match r1 st))"
| "rx_match (Grp name r) (s, g) =
     map (\<lambda>(s', g'). (s', AList.update name (take (length s - length s') s) g')) (rx_match r (s, g))"
| "rx_match Eos (s, g) = (if s = [] \<or> s = [CHR 0x0A] then [(s, g)] else [])"

text \<open>\<open>pattern.match(text)\<close>: the first match at the start of the text, with its groups.\<close>

definition re_match :: "rx \<Rightarrow> string \<Rightarrow> mstate option" where
  "re_match r s = (case rx_match r (s, []) of [] \<Rightarrow> None | st # _ \<Rightarrow> Some st)"

text \<open>
  \<open>pattern.finditer(text)\<close>: the non-overlapping matches from left to right, each given
  by its groups. After a match the scan resumes where the match ended; where nothing
  matches it moves on by one character.
\<close>

fun finditer :: "rx \<Rightarrow> string \<Rightarrow> (string \<times> string) list list" where
  "finditer r s =
     (case re_match r s of
        Some (s', g) \<Rightarrow>
          if length s' < length s then g # finditer r s'
          else g # (case s of [] \<Rightarrow> [] | _ # cs \<Rightarrow> finditer r cs)
      | None \<Rightarrow> (case s of [] \<Rightarrow> [] | _ # cs \<Rightarrow> finditer r cs))"

definition is_digit :: "char \<Rightarrow> bool" where
  "is_digit c \<longleftrightarrow> c \<in> set ''0123456789''"

definition is_word :: "char \<Rightarrow> bool" where
  "is_word c \<longleftrightarrow> c \<in> set ''abcdefghijklmnopqrstuvwxyzABCDEFGHIJKLMNOPQRSTUVWXYZ_'' \<or> is_digit c"

section \<open>Coreference parsing (\<open>clean_corefs\<close>, utils.py)\<close>

text \<open>
  The pattern
  \<^verbatim>\<open>(?P<label>[\w\d\.]+[abc]?)[,:]?[ ]+(?P<group>[\[\]\w\d-]+)\<close>
\<close>

definition patt :: rx where
  "patt =
     Seq (Grp ''label'' (Seq (Plus (\<lambda>c. is_word c \<or> is_digit c \<or> c = CHR ''.''))
                              (Opt (Cls (\<lambda>c. c \<in> set ''abc'')))))
    (Seq (Opt (Cls (\<lambda>c. c \<in> set '',:'')))
    (Seq (Plus (\<lambda>c. c = CHR '' ''))
         (Grp ''group'' (Plus (\<lambda>c. c \<in> set ''[]'' \<or> is_word c \<or> is_digit c \<or> c = CHR ''-'')))))"

text \<open>
  The loop that fills \<open>coref_smiles\<close>: every match of every text assigns
  \<open>coref_smiles[label] = group\<close>. A named group of a match is always set here, so the
  lookup of a group has no failing case.
\<close>

definition group :: "(string \<times> string) list \<Rightarrow> string \<Rightarrow> string" where
  "group f name = (case map_of f name of Some v \<Rightarrow> v | None \<Rightarrow> [])"

definition parse_assignments :: "string list \<Rightarrow> (string \<times> string) list" where
  "parse_assignments idt_bboxes_text =
     fold (\<lambda>text coref_smiles.
             fold (\<lambda>f cs. AList.update (group f ''label'') (group f ''group'') cs)
                  (finditer patt text) coref_smiles)
          idt_bboxes_text []"

text \<open>
  A coreference record is a dictionary whose entries \<open>mol_bboxes\<close>, \<open>idt_bboxes\<close> and
  \<open>bboxes\<close> hold a list of dictionaries or \<open>None\<close>; an entry may be missing.
\<close>

datatype cval = CList "entity list" | CNone

type_synonym coref = "(string \<times> cval) list"

fun foldE :: "('a \<Rightarrow> 's \<Rightarrow> error + 's) \<Rightarrow> 'a list \<Rightarrow> 's \<Rightarrow> error + 's" where
  "foldE f [] s = Inr s"
| "foldE f (a # as) s = bnd (f a s) (foldE f as)"

fun mapE :: "('a \<Rightarrow> error + 'b) \<Rightarrow> 'a list \<Rightarrow> error + 'b list" where
  "mapE f [] = Inr []"
| "mapE f (a # as) = bnd (f a) (\<lambda>b. bnd (mapE f as) (\<lambda>bs. Inr (b # bs)))"

text \<open>\<open>patt.finditer(text)\<close> needs a string.\<close>

definition text_of :: "val \<Rightarrow> error + string" where
  "text_of v = (case v of VStr s \<Rightarrow> Inr s | _ \<Rightarrow> Inl TypeError)"

definition clean_corefs ::
  "coref list \<Rightarrow> nat \<Rightarrow> error + ((entity \<times> val) list \<times> (string \<times> string) list \<times> cval) option" where
  "clean_corefs coref_results_dict idx =
     (if length coref_results_dict \<le> idx then Inr None
      else let res = coref_results_dict ! idx in
        case map_of res ''mol_bboxes'' of
          None \<Rightarrow> Inr None
        | Some CNone \<Rightarrow> Inl TypeError
        | Some (CList []) \<Rightarrow> Inl IndexError
        | Some (CList (first # others)) \<Rightarrow>
            bnd (if map_of first ''smiles'' \<noteq> None
                 then mapE (\<lambda>bbox. bnd (getitem bbox ''smiles'') (\<lambda>s. Inr (bbox, s))) (first # others)
                 else Inr []) (\<lambda>mol_bboxes_text.
            case map_of res ''idt_bboxes'' of
              None \<Rightarrow> Inr None
            | Some CNone \<Rightarrow> Inr None
            | Some (CList idt) \<Rightarrow>
                bnd (mapE (\<lambda>bbox. getitem bbox ''text'') idt) (\<lambda>idt_vals.
                bnd (mapE text_of idt_vals) (\<lambda>idt_bboxes_text.
                bnd (getitem res ''bboxes'') (\<lambda>bboxes.
                Inr (Some (mol_bboxes_text, parse_assignments idt_bboxes_text, bboxes)))))))"

section \<open>Backout reconciliation (\<open>backout\<close>, utils.py)\<close>

text \<open>
  An element of \<open>results\<close>: the dictionary of one figure. The core reads and writes its
  \<open>reactions\<close> and \<open>page\<close> entries only; \<open>page = None\<close> stands for a dictionary
  without that key.
\<close>

record result =
  reactions :: "reaction list"
  page :: "val option"

text \<open>
  \<open>rxn['products'][0]\<close> and its \<open>smiles\<close> entry: \<open>None\<close> when the dictionary has no
  such key, the stored value otherwise.
\<close>

definition product_smiles :: "reaction \<Rightarrow> error + val option" where
  "product_smiles rxn =
     bnd (getitem rxn ''products'') (\<lambda>products.
     case products of
       [] \<Rightarrow> Inl IndexError
     | Sub _ # _ \<Rightarrow> Inl AttributeError
     | Ent d # _ \<Rightarrow> Inr (map_of d ''smiles''))"

text \<open>The test of the first loop: a structure string with neither \<open>*\<close> nor \<open>R\<close>.\<close>

definition no_rgroup :: "reaction \<Rightarrow> error + bool" where
  "no_rgroup rxn =
     bnd (product_smiles rxn) (\<lambda>ps.
     case ps of
       None \<Rightarrow> Inr False
     | Some VNone \<Rightarrow> Inr False
     | Some (VStr prod_smiles) \<Rightarrow> Inr (CHR ''*'' \<notin> set prod_smiles \<and> CHR ''R'' \<notin> set prod_smiles)
     | Some (VObj _) \<Rightarrow> Inl TypeError)"

definition first_pass :: "result list \<Rightarrow> error + result list" where
  "first_pass results =
     foldE (\<lambda>res final_results.
              bnd (foldE (\<lambda>rxn rs. bnd (no_rgroup rxn) (\<lambda>b. Inr (if b then rs @ [rxn] else rs)))
                         (reactions res) [])
                  (\<lambda>rs. Inr (final_results @ [\<lparr>reactions = rs, page = None\<rparr>])))
           results []"

text \<open>
  The second loop never rebinds \<open>new_res\<close>: it still names the dictionary that the last
  iteration of the first loop created, the last element of \<open>final_results\<close>.
\<close>

definition append_new_res :: "result list \<Rightarrow> reaction \<Rightarrow> result list" where
  "append_new_res final_results new_rxn =
     (case rev final_results of
        [] \<Rightarrow> []
      | new_res # earlier \<Rightarrow> rev earlier @ [new_res\<lparr>reactions := reactions new_res @ [new_rxn]\<rparr>])"

text \<open>
  \<open>v == text\<close> compares a captured group, a string, with the first component of a pair
  of \<open>mol_bboxes_text\<close>, which is the bounding-box dictionary itself: never equal.
\<close>

definition py_eq_str_dict :: "string \<Rightarrow> entity \<Rightarrow> bool" where
  "py_eq_str_dict v d = False"

definition coref_smiles_to_graphs ::
  "(string \<times> string) list \<Rightarrow> (entity \<times> val) list \<Rightarrow> (val \<times> string) list" where
  "coref_smiles_to_graphs coref_smiles mol_bboxes_text =
     fold (\<lambda>(k, v) m.
             fold (\<lambda>(text, smiles) m'. if py_eq_str_dict v text then AList.update smiles k m' else m')
                  mol_bboxes_text m)
          coref_smiles []"

text \<open>The body that builds \<open>new_rxn\<close> from the reaction with R-groups.\<close>

definition relabel :: "(val \<times> string) list \<Rightarrow> item \<Rightarrow> error + item" where
  "relabel m reactant =
     (case reactant of
        Sub _ \<Rightarrow> Inl AttributeError
      | Ent d \<Rightarrow>
          (case map_of d ''smiles'' of
             None \<Rightarrow> Inr reactant
           | Some s \<Rightarrow> (case map_of m s of
                          None \<Rightarrow> Inr reactant
                        | Some label \<Rightarrow> Inr (Ent [(''smiles'', VStr label)]))))"

definition make_new_rxn :: "(val \<times> string) list \<Rightarrow> reaction \<Rightarrow> error + reaction" where
  "make_new_rxn m rxn =
     bnd (getitem rxn ''products'') (\<lambda>products.
     bnd (getitem rxn ''reactants'') (\<lambda>reactants.
     bnd (mapE (relabel m) reactants) (\<lambda>new_reactants.
     Inr [(''reactants'', new_reactants), (''products'', products)])))"

text \<open>
  The similarity test. \<open>MolFromSmiles\<close> and \<open>HasSubstructMatch\<close> are the external
  toolkit: \<open>HasSubstructMatch mol query\<close> is the call \<open>mol.HasSubstructMatch(query)\<close>.
\<close>

definition similar :: "(string \<Rightarrow> 'm option) \<Rightarrow> ('m \<Rightarrow> 'm \<Rightarrow> bool) \<Rightarrow> string \<Rightarrow> string \<Rightarrow> bool" where
  "similar MolFromSmiles HasSubstructMatch prod_smiles other_prod_smiles =
     (case MolFromSmiles (map (\<lambda>c. if c = CHR ''*'' then CHR ''C'' else c) prod_smiles) of
        None \<Rightarrow> False
      | Some prod_mol \<Rightarrow>
          (case MolFromSmiles other_prod_smiles of
             None \<Rightarrow> False
           | Some other_prod_mol \<Rightarrow> HasSubstructMatch prod_mol other_prod_mol))"

text \<open>The two innermost loops, over every reaction of every element of \<open>results\<close>.\<close>

definition try_other ::
  "(string \<Rightarrow> 'm option) \<Rightarrow> ('m \<Rightarrow> 'm \<Rightarrow> bool) \<Rightarrow> (val \<times> string) list \<Rightarrow> reaction \<Rightarrow> string
   \<Rightarrow> reaction \<Rightarrow> result list \<Rightarrow> error + result list" where
  "try_other MolFromSmiles HasSubstructMatch m rxn prod_smiles other_rxn final_results =
     bnd (product_smiles other_rxn) (\<lambda>ops.
     case ops of
       None \<Rightarrow> Inr final_results
     | Some VNone \<Rightarrow> Inr final_results
     | Some (VObj _) \<Rightarrow> Inl TypeError
     | Some (VStr other_prod_smiles) \<Rightarrow>
         if CHR ''*'' \<notin> set other_prod_smiles
            \<and> similar MolFromSmiles HasSubstructMatch prod_smiles other_prod_smiles
         then bnd (make_new_rxn m rxn) (\<lambda>new_rxn. Inr (append_new_res final_results new_rxn))
         else Inr final_results)"

definition back_out_rxn ::
  "(string \<Rightarrow> 'm option) \<Rightarrow> ('m \<Rightarrow> 'm \<Rightarrow> bool) \<Rightarrow> result list \<Rightarrow> (val \<times> string) list
   \<Rightarrow> reaction \<Rightarrow> result list \<Rightarrow> error + result list" where
  "back_out_rxn MolFromSmiles HasSubstructMatch results m rxn final_results =
     bnd (product_smiles rxn) (\<lambda>ps.
     case ps of
       None \<Rightarrow> Inr final_results
     | Some VNone \<Rightarrow> Inr final_results
     | Some (VObj _) \<Rightarrow> Inl TypeError
     | Some (VStr prod_smiles) \<Rightarrow>
         if CHR ''*'' \<in> set prod_smiles
         then foldE (\<lambda>other_res. foldE (try_other MolFromSmiles HasSubstructMatch m rxn prod_smiles)
                                        (reactions other_res))
                    results final_results
         else Inr final_results)"

definition second_pass ::
  "(string \<Rightarrow> 'm option) \<Rightarrow> ('m \<Rightarrow> 'm \<Rightarrow> bool) \<Rightarrow> result list \<Rightarrow> coref list
   \<Rightarrow> result list \<Rightarrow> error + result list" where
  "second_pass MolFromSmiles HasSubstructMatch results coref_results final_results =
     foldE (\<lambda>(i, res) fr.
              bnd (clean_corefs coref_results i) (\<lambda>coref_res.
              case coref_res of
                None \<Rightarrow> Inr fr
              | Some (mol_bboxes_text, coref_smiles, bboxes) \<Rightarrow>
                  foldE (back_out_rxn MolFromSmiles HasSubstructMatch results
                           (coref_smiles_to_graphs coref_smiles mol_bboxes_text))
                        (reactions res) fr))
           (enumerate 0 results) final_results"

definition backout ::
  "(string \<Rightarrow> 'm option) \<Rightarrow> ('m \<Rightarrow> 'm \<Rightarrow> bool) \<Rightarrow> result list \<Rightarrow> coref list \<Rightarrow> error + result list" where
  "backout MolFromSmiles HasSubstructMatch results coref_results =
     bnd (first_pass results)
         (second_pass MolFromSmiles HasSubstructMatch results coref_results)"

text \<open>
  Stand-ins for the toolkit, for concrete runs: a molecule is its structure string and
  \<open>mol\<close> has the substructure \<open>query\<close> when \<open>query\<close> occurs in it as a contiguous piece.
\<close>

definition ex_MolFromSmiles :: "string \<Rightarrow> string option" where
  "ex_MolFromSmiles s = Some s"

fun starts_with :: "string \<Rightarrow> string \<Rightarrow> bool" where
  "starts_with s [] = True"
| "starts_with [] (q # qs) = False"
| "starts_with (c # cs) (q # qs) = (c = q \<and> starts_with cs qs)"

fun ex_HasSubstructMatch :: "string \<Rightarrow> string \<Rightarrow> bool" where
  "ex_HasSubstructMatch [] query = (query = [])"
| "ex_HasSubstructMatch (c # cs) query = (starts_with (c # cs) query \<or> ex_HasSubstructMatch cs query)"

text \<open>A reaction with a wildcard product, two concrete reactions and a coreference record.\<close>

definition ex_P :: reaction where
  "ex_P = [(''reactants'', [Ent [(''smiles'', VStr ''[1*]Br'')]]),
           (''conditions'', [Ent [(''text'', VStr ''rt'')]]),
           (''products'', [Ent [(''smiles'', VStr ''*C'')]])]"

definition ex_C :: reaction where
  "ex_C = [(''reactants'', [Ent [(''smiles'', VStr ''CBr'')]]),
           (''conditions'', []),
           (''products'', [Ent [(''smiles'', VStr ''CC'')]])]"

definition ex_C2 :: reaction where
  "ex_C2 = [(''reactants'', [Ent [(''smiles'', VStr ''CI'')]]),
            (''conditions'', []),
            (''products'', [Ent [(''smiles'', VStr ''CC'')]])]"

definition ex_coref :: coref where
  "ex_coref = [(''mol_bboxes'', CList [[(''smiles'', VStr ''CC'')]]),
               (''idt_bboxes'', CList [[(''text'', VStr ''3a, R = Cl'')]]),
               (''bboxes'', CList [])]"

definition ex_new_rxn :: reaction where
  "ex_new_rxn = [(''reactants'', [Ent [(''smiles'', VStr ''[1*]Br'')]]),
                 (''products'', [Ent [(''smiles'', VStr ''*C'')]])]"

text \<open>Notions used to state what \<open>backout\<close> returns.\<close>

definition concrete :: "reaction \<Rightarrow> bool" where
  "concrete rxn \<longleftrightarrow> no_rgroup rxn = Inr True"

definition has_wildcard :: "reaction \<Rightarrow> bool" where
  "has_wildcard rxn \<longleftrightarrow> (\<exists>ps. product_smiles rxn = Inr (Some (VStr ps)) \<and> CHR ''*'' \<in> set ps)"

definition emitted_by :: "result list \<Rightarrow> coref list \<Rightarrow> reaction \<Rightarrow> bool" where
  "emitted_by results coref_results e \<longleftrightarrow>
     (\<exists>j < length results. \<exists>P \<in> set (reactions (results ! j)). \<exists>mol_bboxes_text coref_smiles bboxes.
        clean_corefs coref_results j = Inr (Some (mol_bboxes_text, coref_smiles, bboxes))
        \<and> has_wildcard P
        \<and> make_new_rxn (coref_smiles_to_graphs coref_smiles mol_bboxes_text) P = Inr e)"

definition grows_by :: "(reaction \<Rightarrow> bool) \<Rightarrow> result list \<Rightarrow> result list \<Rightarrow> bool" where
  "grows_by Q fr fr' \<longleftrightarrow>
     length fr' = length fr
     \<and> (\<forall>i < length fr. \<exists>em. reactions (fr' ! i) = reactions (fr ! i) @ em \<and> (\<forall>e \<in> set em. Q e))"

definition candidate_matches ::
  "(string \<Rightarrow> 'm option) \<Rightarrow> ('m \<Rightarrow> 'm \<Rightarrow> bool) \<Rightarrow> string \<Rightarrow> reaction \<Rightarrow> bool" where
  "candidate_matches MolFromSmiles HasSubstructMatch prod_smiles other_rxn \<longleftrightarrow>
     (case product_smiles other_rxn of
        Inr (Some (VStr other_prod_smiles)) \<Rightarrow>
          CHR ''*'' \<notin> set other_prod_smiles
          \<and> similar MolFromSmiles HasSubstructMatch prod_smiles other_prod_smiles
      | _ \<Rightarrow> False)"

definition all_reactions :: "result list \<Rightarrow> reaction list" where
  "all_reactions rs = concat (map reactions rs)"

definition ex_results :: "result list" where
  "ex_results = [\<lparr>reactions = [ex_P, ex_C, ex_C2], page = Some (VObj 1)\<rparr>]"

definition ex_final :: "result list" where
  "ex_final = [\<lparr>reactions = [ex_C, ex_C2, ex_new_rxn, ex_new_rxn], page = None\<rparr>]"

definition ex_empty_coref :: coref where
  "ex_empty_coref = [(''mol_bboxes'', CList []), (''idt_bboxes'', CList []), (''bboxes'', CList [])]"

section \<open>Graph substitution (\<open>get_replaced_reaction\<close>, utils.py)\<close>

text \<open>
  The lists of a graph are mutable objects, and the claims about substitution depend on
  which of them the copy shares with the original. The store holds the lists; an
  address is an index into it and allocation appends. A graph dictionary holds the
  addresses of its coordinate list, symbol list and outer edge list; the outer edge list
  holds the addresses of its rows.
\<close>

datatype obj =
    OCoords "(real \<times> real) list"
  | OSymbols "string list"
  | ORows "nat list"
  | ORow "int list"

type_synonym heap = "obj list"

record gref =
  r_image :: val
  r_coords :: nat
  r_symbols :: nat
  r_edges :: nat
  r_key :: "string \<times> nat"

definition alloc :: "heap \<Rightarrow> obj \<Rightarrow> heap \<times> nat" where
  "alloc h ob = (h @ [ob], length h)"

text \<open>Reading an object of the wrong kind does not occur in a run of the source.\<close>

definition get_coords :: "heap \<Rightarrow> nat \<Rightarrow> error + (real \<times> real) list" where
  "get_coords h a = (if a < length h then (case h ! a of OCoords cs \<Rightarrow> Inr cs | _ \<Rightarrow> Inl TypeError) else Inl TypeError)"

definition get_symbols :: "heap \<Rightarrow> nat \<Rightarrow> error + string list" where
  "get_symbols h a = (if a < length h then (case h ! a of OSymbols ss \<Rightarrow> Inr ss | _ \<Rightarrow> Inl TypeError) else Inl TypeError)"

definition get_rows :: "heap \<Rightarrow> nat \<Rightarrow> error + nat list" where
  "get_rows h a = (if a < length h then (case h ! a of ORows rs \<Rightarrow> Inr rs | _ \<Rightarrow> Inl TypeError) else Inl TypeError)"

definition get_row :: "heap \<Rightarrow> nat \<Rightarrow> error + int list" where
  "get_row h a = (if a < length h then (case h ! a of ORow r \<Rightarrow> Inr r | _ \<Rightarrow> Inl TypeError) else Inl TypeError)"

text \<open>The graph that a graph dictionary denotes in a store.\<close>

definition graph_of :: "heap \<Rightarrow> gref \<Rightarrow> error + graph" where
  "graph_of h g =
     bnd (get_coords h (r_coords g)) (\<lambda>cs.
     bnd (get_symbols h (r_symbols g)) (\<lambda>ss.
     bnd (get_rows h (r_edges g)) (\<lambda>rs.
     bnd (mapE (get_row h) rs) (\<lambda>e.
     Inr \<lparr>image = r_image g, coords = cs, symbols = ss, edges = e, key = r_key g\<rparr>))))"

text \<open>The graphs that \<open>get_atoms_and_bonds\<close> returns are fresh objects.\<close>

definition alloc_graph :: "heap \<Rightarrow> graph \<Rightarrow> heap \<times> gref" where
  "alloc_graph h g =
     (let (h1, c) = alloc h (OCoords (coords g));
          (h2, s) = alloc h1 (OSymbols (symbols g));
          (h3, rs) = fold (\<lambda>row (h', as). case alloc h' (ORow row) of (h'', a) \<Rightarrow> (h'', as @ [a]))
                          (edges g) (h2, []);
          (h4, e) = alloc h3 (ORows rs)
      in (h4, \<lparr>r_image = image g, r_coords = c, r_symbols = s, r_edges = e, r_key = key g\<rparr>))"

definition alloc_graphs :: "heap \<Rightarrow> graph list \<Rightarrow> heap \<times> gref list" where
  "alloc_graphs h gs = fold (\<lambda>g (h', rs). case alloc_graph h' g of (h'', r) \<Rightarrow> (h'', rs @ [r])) gs (h, [])"

text \<open>
  The first loop: a new dictionary per graph with slices \<open>[:]\<close> of the coordinate list,
  the symbol list and the outer edge list. The rows are shared with the original.
\<close>

definition copy_graph :: "heap \<Rightarrow> gref \<Rightarrow> error + heap \<times> gref" where
  "copy_graph h g =
     bnd (get_coords h (r_coords g)) (\<lambda>cs.
     bnd (get_symbols h (r_symbols g)) (\<lambda>ss.
     bnd (get_rows h (r_edges g)) (\<lambda>rs.
     case alloc h (OCoords cs) of (h1, c) \<Rightarrow>
     case alloc h1 (OSymbols ss) of (h2, s) \<Rightarrow>
     case alloc h2 (ORows rs) of (h3, e) \<Rightarrow>
       Inr (h3, \<lparr>r_image = r_image g, r_coords = c, r_symbols = s, r_edges = e, r_key = r_key g\<rparr>))))"

definition copy_graphs :: "heap \<Rightarrow> gref list \<Rightarrow> error + heap \<times> gref list" where
  "copy_graphs h graphs =
     foldE (\<lambda>g (h', graph_copy). bnd (copy_graph h' g) (\<lambda>(h'', c). Inr (h'', graph_copy @ [c])))
           graphs (h, [])"

text \<open>
  The second loop: \<open>graph_copy[graph_idx]['chartok_coords']['symbols'][atom_idx] = mappings[atom]\<close>
  for every located atom whose symbol is a key of \<open>mappings\<close>. The indices come from
  \<open>enumerate\<close> and are natural numbers.
\<close>

definition write_symbol :: "gref list \<Rightarrow> nat \<Rightarrow> nat \<Rightarrow> string \<Rightarrow> heap \<Rightarrow> error + heap" where
  "write_symbol graph_copy graph_idx atom_idx v h =
     (if graph_idx < length graph_copy
      then let a = r_symbols (graph_copy ! graph_idx) in
           bnd (get_symbols h a) (\<lambda>ss.
           if atom_idx < length ss then Inr (h[a := OSymbols (ss[atom_idx := v])])
           else Inl IndexError)
      else Inl IndexError)"

definition relabel_atoms ::
  "gref list \<Rightarrow> (nat \<times> (string \<times> nat) list) list \<Rightarrow> (string \<times> string) list \<Rightarrow> heap \<Rightarrow> error + heap" where
  "relabel_atoms graph_copy relevant_locs mappings h =
     foldE (\<lambda>(graph_idx, located).
              foldE (\<lambda>(atm, atom_idx) h'.
                       case map_of mappings atm of
                         None \<Rightarrow> Inr h'
                       | Some v \<Rightarrow> write_symbol graph_copy graph_idx atom_idx v h')
                    located)
           relevant_locs h"

definition relabel_graphs ::
  "heap \<Rightarrow> gref list \<Rightarrow> (nat \<times> (string \<times> nat) list) list \<Rightarrow> (string \<times> string) list
   \<Rightarrow> error + heap \<times> gref list" where
  "relabel_graphs h graphs relevant_locs mappings =
     bnd (copy_graphs h graphs) (\<lambda>(h1, graph_copy).
     bnd (relabel_atoms graph_copy relevant_locs mappings h1) (\<lambda>h2.
     Inr (h2, graph_copy)))"

text \<open>
  The copy of the reaction: a dictionary of category \<open>[Mol]\<close> is copied, any other is
  shared with the original; a list element is copied one level deep. As a value the
  copy equals the original.
\<close>

definition append_copy :: "item \<Rightarrow> error + item" where
  "append_copy ent =
     (case ent of
        Sub _ \<Rightarrow> Inl TypeError
      | Ent d \<Rightarrow> bnd (getitem d ''category'') (\<lambda>_. Inr (Ent d)))"

definition copy_item :: "item \<Rightarrow> error + item" where
  "copy_item ent =
     (case ent of
        Sub es \<Rightarrow> bnd (mapE append_copy es) (\<lambda>sub_list. Inr (Sub sub_list))
      | Ent d \<Rightarrow> append_copy (Ent d))"

definition copy_reaction :: "reaction \<Rightarrow> error + reaction" where
  "copy_reaction orig_reaction =
     mapE (\<lambda>(k, v). bnd (mapE copy_item v) (\<lambda>v'. Inr (k, v'))) orig_reaction"

text \<open>
  \<open>molecule['smiles'] = ...\<close> on the element of the copy that the graph's key names. When
  that element is not of category \<open>[Mol]\<close> it is the original's own dictionary, and the
  original changes with it.
\<close>

definition is_mol :: "entity \<Rightarrow> bool" where
  "is_mol d \<longleftrightarrow> map_of d ''category'' = Some (VStr ''[Mol]'')"

definition set_item_smiles :: "string \<Rightarrow> nat \<Rightarrow> val \<Rightarrow> reaction \<Rightarrow> reaction" where
  "set_item_smiles k i s r =
     (case map_of r k of
        None \<Rightarrow> r
      | Some lst \<Rightarrow>
          (case lst ! i of
             Sub _ \<Rightarrow> r
           | Ent d \<Rightarrow> AList.update k (lst[i := Ent (AList.update ''smiles'' s d)]) r))"

definition set_smiles :: "string \<times> nat \<Rightarrow> val \<Rightarrow> reaction \<times> reaction \<Rightarrow> error + reaction \<times> reaction" where
  "set_smiles ky s oc =
     (case oc of (orig_reaction, reaction_copy) \<Rightarrow>
      case ky of (k, i) \<Rightarrow>
        bnd (getitem reaction_copy k) (\<lambda>lst.
        if i < length lst
        then (case lst ! i of
                Sub _ \<Rightarrow> Inl TypeError
              | Ent d \<Rightarrow>
                  Inr (if is_mol d then orig_reaction else set_item_smiles k i s orig_reaction,
                       set_item_smiles k i s reaction_copy))
        else Inl IndexError))"

text \<open>
  \<open>convert_graph_to_output\<close> is the external recogniser's conversion of a graph to a
  structure string; it reads the graph.
\<close>

definition get_replaced_reaction ::
  "(graph \<Rightarrow> val) \<Rightarrow> heap \<Rightarrow> reaction \<Rightarrow> gref list \<Rightarrow> (nat \<times> (string \<times> nat) list) list
   \<Rightarrow> (string \<times> string) list \<Rightarrow> error + heap \<times> reaction \<times> reaction" where
  "get_replaced_reaction convert_graph_to_output h orig_reaction graphs relevant_locs mappings =
     bnd (relabel_graphs h graphs relevant_locs mappings) (\<lambda>(h1, graph_copy).
     bnd (copy_reaction orig_reaction) (\<lambda>reaction_copy.
     bnd (foldE (\<lambda>g oc. bnd (graph_of h1 g) (\<lambda>gv. set_smiles (r_key g) (convert_graph_to_output gv) oc))
                graph_copy (orig_reaction, reaction_copy)) (\<lambda>(orig', reaction_copy').
     Inr (h1, orig', reaction_copy'))))"

section \<open>Table-driven expansion (\<open>process_tables\<close>, utils.py)\<close>

record column =
  col_tag :: string
  col_text :: string

record content =
  columns :: "column list"
  rows :: "string list list"

text \<open>
  A figure: its page, its image and \<open>figure['table']['content']\<close>, which may be \<open>None\<close>.
  A cell of a row is given by its \<open>text\<close>.
\<close>

record figure =
  fig_page :: val
  fig_image :: val
  table_content :: "content option"

text \<open>The pattern \<^verbatim>\<open>^(\w+-)?(?P<group>[\w-]+)( \(\w+\))?$\<close>, used with \<open>match\<close>.\<close>

definition r_group_pattern :: rx where
  "r_group_pattern =
     Seq (Opt (Seq (Plus is_word) (Cls (\<lambda>c. c = CHR ''-''))))
    (Seq (Grp ''group'' (Plus (\<lambda>c. is_word c \<or> c = CHR ''-'')))
    (Seq (Opt (Seq (Cls (\<lambda>c. c = CHR '' ''))
              (Seq (Cls (\<lambda>c. c = CHR ''(''))
              (Seq (Plus is_word) (Cls (\<lambda>c. c = CHR '')''))))))
         Eos))"

definition find_relevant_groups :: "heap \<Rightarrow> gref list \<Rightarrow> column list \<Rightarrow> error + (nat \<times> (string \<times> nat) list) list" where
  "find_relevant_groups h graphs cols =
     (let r_groups = set (map (\<lambda>col. ''['' @ col_text col @ '']'')
                              (filter (\<lambda>col. col_tag col = ''alkyl group'') cols))
      in mapE (\<lambda>(i, g). bnd (get_symbols h (r_symbols g)) (\<lambda>ss.
                 Inr (i, map (\<lambda>(j, atm). (butlast (tl atm), j))
                             (filter (\<lambda>(j, atm). atm \<in> r_groups) (enumerate 0 ss)))))
              (enumerate 0 graphs))"

text \<open>
  The loop over the columns of one row, on the state
  \<open>(r_groups, expanded_conditions, replaced)\<close>.
\<close>

definition row_step ::
  "column \<times> string \<Rightarrow> (string \<times> string) list \<times> item list \<times> bool
   \<Rightarrow> (string \<times> string) list \<times> item list \<times> bool" where
  "row_step ce st =
     (case ce of (col, entry_text) \<Rightarrow>
      case st of (r_groups, expanded_conditions, replaced) \<Rightarrow>
        if col_tag col \<noteq> ''alkyl group''
        then (r_groups,
              expanded_conditions @ [Ent [(''category'', VStr ''[Table]''), (''text'', VStr entry_text),
                                          (''tag'', VStr (col_tag col)), (''header'', VStr (col_text col))]],
              replaced)
        else (case re_match r_group_pattern entry_text of
                None \<Rightarrow> (r_groups, expanded_conditions, replaced)
              | Some (_, found) \<Rightarrow>
                  (AList.update (col_text col) (group found ''group'') r_groups, expanded_conditions, True)))"

definition scan_row ::
  "column list \<Rightarrow> item list \<Rightarrow> string list \<Rightarrow> (string \<times> string) list \<times> item list \<times> bool" where
  "scan_row cols conditions row = fold row_step (zip cols row) ([], conditions, False)"

text \<open>
  The body of the loop over the rows, on the state
  \<open>(store, orig_reaction, result['reactions'], conditions_to_extend)\<close>.
\<close>

definition process_row ::
  "(graph \<Rightarrow> val) \<Rightarrow> column list \<Rightarrow> gref list \<Rightarrow> (nat \<times> (string \<times> nat) list) list \<Rightarrow> string list
   \<Rightarrow> heap \<times> reaction \<times> reaction list \<times> item list list
   \<Rightarrow> error + heap \<times> reaction \<times> reaction list \<times> item list list" where
  "process_row convert_graph_to_output cols graphs relevant_locs row st =
     (case st of (h, orig_reaction, others, conditions_to_extend) \<Rightarrow>
        bnd (getitem orig_reaction ''conditions'') (\<lambda>conditions.
        case scan_row cols conditions row of (r_groups, expanded_conditions, replaced) \<Rightarrow>
        bnd (get_replaced_reaction convert_graph_to_output h orig_reaction graphs relevant_locs r_groups)
            (\<lambda>(h', orig', reaction).
        if replaced
        then bnd (getitem reaction ''reactants'') (\<lambda>reactants.
             bnd (getitem reaction ''products'') (\<lambda>products.
             Inr (h', orig',
                  others @ [[(''reactants'', reactants), (''conditions'', expanded_conditions),
                             (''products'', products)]],
                  conditions_to_extend)))
        else Inr (h', orig', others, conditions_to_extend @ [expanded_conditions]))))"

text \<open>
  One pair of \<open>zip(figures, results)\<close>. \<open>others\<close> are the reactions after the first; the
  first one, \<open>orig_reaction\<close>, is changed in place and stays at the head of the list.
  \<open>predict_images\<close> is the external recogniser on the crops of a figure's image.
\<close>

definition process_table ::
  "(val \<Rightarrow> val list \<Rightarrow> mol_output list) \<Rightarrow> (graph \<Rightarrow> val) \<Rightarrow> figure \<Rightarrow> result \<Rightarrow> error + result" where
  "process_table predict_images convert_graph_to_output fig res =
     (let res1 = res\<lparr>page := Some (fig_page fig)\<rparr> in
      case table_content fig of
        None \<Rightarrow> Inr res1
      | Some cont \<Rightarrow>
          (case reactions res1 of
             [] \<Rightarrow> Inr res1
           | orig_reaction # others \<Rightarrow>
               bnd (get_atoms_and_bonds (predict_images (fig_image fig)) orig_reaction) (\<lambda>gs.
               case alloc_graphs [] gs of (h, graphs) \<Rightarrow>
               bnd (find_relevant_groups h graphs (columns cont)) (\<lambda>relevant_locs.
               bnd (foldE (process_row convert_graph_to_output (columns cont) graphs relevant_locs)
                          (rows cont) (h, orig_reaction, others, []))
                   (\<lambda>(h', orig', others', conditions_to_extend).
               bnd (getitem orig' ''conditions'') (\<lambda>conditions.
               Inr (res1\<lparr>reactions :=
                      AList.update ''conditions'' (Sub conditions # map Sub conditions_to_extend) orig'
                      # others'\<rparr>)))))))"

fun process_tables ::
  "(val \<Rightarrow> val list \<Rightarrow> mol_output list) \<Rightarrow> (graph \<Rightarrow> val) \<Rightarrow> figure list \<Rightarrow> result list
   \<Rightarrow> error + result list" where
  "process_tables predict_images convert_graph_to_output (fig # figures) (res # results) =
     bnd (process_table predict_images convert_graph_to_output fig res) (\<lambda>res'.
     bnd (process_tables predict_images convert_graph_to_output figures results) (\<lambda>rest.
     Inr (res' # rest)))"
| "process_tables predict_images convert_graph_to_output figures results = Inr results"

section \<open>Concrete inputs and notions for the statements about tables and substitution\<close>

text \<open>A figure with a table, a template with one reaction, and stand-ins for the recogniser.\<close>

definition ex_convert :: "graph \<Rightarrow> val" where
  "ex_convert g = VStr (concat (symbols g))"

definition ex_orig_reaction :: reaction where
  "ex_orig_reaction =
     [(''reactants'', [Ent [(''category'', VStr ''[Mol]''), (''bbox'', VObj 0), (''smiles'', VStr ''C[R]'')]]),
      (''conditions'', [Ent [(''category'', VStr ''[Txt]''), (''text'', VStr ''rt'')]]),
      (''products'', [])]"

definition ex_result :: result where
  "ex_result = \<lparr>reactions = [ex_orig_reaction], page = None\<rparr>"

definition ex_columns :: "column list" where
  "ex_columns = [\<lparr>col_tag = ''alkyl group'', col_text = ''R''\<rparr>, \<lparr>col_tag = ''result'', col_text = ''Yield''\<rparr>]"

definition ex_figure :: "string list list \<Rightarrow> figure" where
  "ex_figure rws = \<lparr>fig_page = VObj 3, fig_image = VObj 7,
                     table_content = Some \<lparr>columns = ex_columns, rows = rws\<rparr>\<rparr>"

text \<open>Notions used to state what substitution leaves alone.\<close>

definition located_mapped ::
  "(nat \<times> (string \<times> nat) list) list \<Rightarrow> (string \<times> string) list \<Rightarrow> nat \<Rightarrow> nat \<Rightarrow> bool" where
  "located_mapped relevant_locs mappings i j \<longleftrightarrow>
     (\<exists>(graph_idx, located) \<in> set relevant_locs. graph_idx = i
        \<and> (\<exists>(atm, atom_idx) \<in> set located. atom_idx = j \<and> map_of mappings atm \<noteq> None))"

definition keeps :: "heap \<Rightarrow> heap \<Rightarrow> bool" where
  "keeps h h' \<longleftrightarrow> length h \<le> length h' \<and> (\<forall>a < length h. h' ! a = h ! a)"

definition copies_ok :: "heap \<Rightarrow> gref list \<Rightarrow> heap \<Rightarrow> gref list \<Rightarrow> bool" where
  "copies_ok h graphs h1 graph_copy \<longleftrightarrow>
     keeps h h1 \<and> length graph_copy = length graphs
     \<and> distinct (map r_symbols graph_copy)
     \<and> (\<forall>i < length graphs.
           length h \<le> r_symbols (graph_copy ! i) \<and> r_symbols (graph_copy ! i) < length h1
           \<and> r_key (graph_copy ! i) = r_key (graphs ! i)
           \<and> (\<forall>ss. get_symbols h (r_symbols (graphs ! i)) = Inr ss
                 \<longrightarrow> get_symbols h1 (r_symbols (graph_copy ! i)) = Inr ss))"

text \<open>Notions used to state what table expansion does to a template.\<close>

definition mol_at :: "reaction \<Rightarrow> string \<times> nat \<Rightarrow> bool" where
  "mol_at r ky \<longleftrightarrow>
     (\<exists>lst d. map_of r (fst ky) = Some lst \<and> snd ky < length lst \<and> lst ! snd ky = Ent d \<and> is_mol d)"

definition row_replaced :: "column list \<Rightarrow> item list \<Rightarrow> string list \<Rightarrow> bool" where
  "row_replaced cols conditions row = snd (snd (scan_row cols conditions row))"

definition row_conditions :: "column list \<Rightarrow> item list \<Rightarrow> string list \<Rightarrow> item list" where
  "row_conditions cols conditions row = fst (snd (scan_row cols conditions row))"

definition ex_rows :: "string list list" where
  "ex_rows = [[''Me'', ''85%''], [''n/a'', ''70%'']]"

definition ex_cond :: "item list" where
  "ex_cond = [Ent [(''category'', VStr ''[Txt]''), (''text'', VStr ''rt'')]]"

definition ex_table_entry :: "string \<Rightarrow> item" where
  "ex_table_entry t = Ent [(''category'', VStr ''[Table]''), (''text'', VStr t),
                           (''tag'', VStr ''result''), (''header'', VStr ''Yield'')]"

definition ex_instance :: "item list \<Rightarrow> reaction" where
  "ex_instance cs =
     [(''reactants'', [Ent [(''category'', VStr ''[Mol]''), (''bbox'', VObj 0), (''smiles'', VStr ''CMe'')]]),
      (''conditions'', cs),
      (''products'', [])]"

definition ex_result1 :: result where
  "ex_result1 =
     \<lparr>reactions = [AList.update ''conditions'' [Sub ex_cond, Sub (ex_cond @ [ex_table_entry ''70%''])]
                     ex_orig_reaction,
                   ex_instance (ex_cond @ [ex_table_entry ''85%''])],
      page = Some (VObj 3)\<rparr>"

definition ex_result2 :: result where
  "ex_result2 =
     \<lparr>reactions =
        [AList.update ''conditions''
           [Sub [Sub ex_cond, Sub (ex_cond @ [ex_table_entry ''70%''])],
            Sub [Sub ex_cond, Sub (ex_cond @ [ex_table_entry ''70%'']), ex_table_entry ''70%'']]
           ex_orig_reaction,
         ex_instance (ex_cond @ [ex_table_entry ''85%'']),
         ex_instance [Sub ex_cond, Sub (ex_cond @ [ex_table_entry ''70%'']), ex_table_entry ''85%'']],
      page = Some (VObj 3)\<rparr>"

definition ex_heap :: heap where
  "ex_heap = [OCoords [(0, 0), (1, 0)], OSymbols [''C'', ''[R]''], ORow [0, 1], ORow [1, 0], ORows [2, 3]]"

definition ex_gref :: gref where
  "ex_gref = \<lparr>r_image = VObj 0, r_coords = 0, r_symbols = 1, r_edges = 4, r_key = (''reactants'', 0)\<rparr>"

definition ex_heap' :: heap where
  "ex_heap' = ex_heap @ [OCoords [(0, 0), (1, 0)], OSymbols [''C'', ''Me''], ORows [2, 3]]"

definition ex_gref' :: gref where
  "ex_gref' = \<lparr>r_image = VObj 0, r_coords = 5, r_symbols = 6, r_edges = 7, r_key = (''reactants'', 0)\<rparr>"

text \<open>
  A wildcard reaction whose reactant has the structure of a molecule of the coreference
  record, and the instance that \<open>backout\<close> emits for it.
\<close>

definition ex_P2 :: reaction where
  "ex_P2 = [(''reactants'', [Ent [(''smiles'', VStr ''CBr'')]]),
            (''conditions'', [Ent [(''text'', VStr ''rt'')]]),
            (''products'', [Ent [(''smiles'', VStr ''*C'')]])]"

definition ex_coref2 :: coref where
  "ex_coref2 = [(''mol_bboxes'', CList [[(''smiles'', VStr ''CBr'')]]),
                (''idt_bboxes'', CList [[(''text'', VStr ''3a CBr'')]]),
                (''bboxes'', CList [])]"

definition ex_new_rxn2 :: reaction where
  "ex_new_rxn2 = [(''reactants'', [Ent [(''smiles'', VStr ''CBr'')]]),
                  (''products'', [Ent [(''smiles'', VStr ''*C'')]])]"

section \<open>Proofs: subset enumeration\<close>

declare visit.simps [simp del]
declare backtrack.simps [simp del]

lemma backtrack_visit: "backtrack n start (ss, s) = (ss @ visit n start s, s)"
proof (induction "n - start" arbitrary: start ss s rule: less_induct)
  case less
  have fold_eq: "set js \<subseteq> set [start..<n] \<Longrightarrow>
      fold (\<lambda>i (ss, s). case backtrack n (Suc i) (ss, s @ [i]) of (ss', s') \<Rightarrow> (ss', butlast s')) js (acc, s)
       = (acc @ concat (map (\<lambda>i. visit n (Suc i) (s @ [i])) js), s)" for js acc
  proof (induction js arbitrary: acc)
    case Nil
    then show ?case by simp
  next
    case (Cons j js)
    have j: "n - Suc j < n - start" using Cons.prems by auto
    have "backtrack n (Suc j) (acc, s @ [j]) = (acc @ visit n (Suc j) (s @ [j]), s @ [j])"
      by (rule less [OF j])
    then show ?case using Cons by simp
  qed
  show ?case
    by (subst backtrack.simps, subst visit.simps) (simp add: fold_eq)
qed

lemma visit_Nil: "n \<le> start \<Longrightarrow> visit n start s = [s]"
  by (subst visit.simps) simp

lemma visit_hd: "visit n start s = s # tl (visit n start s)"
  by (metis visit.simps list.sel(3))

lemma visit_step:
  assumes "start < n"
  shows "visit n start s = s # visit n (Suc start) (s @ [start]) @ tl (visit n (Suc start) s)"
proof -
  have "tl (visit n (Suc start) s) = concat (map (\<lambda>i. visit n (Suc i) (s @ [i])) [Suc start..<n])"
    by (subst visit.simps) simp
  moreover have "visit n start s
      = s # visit n (Suc start) (s @ [start]) @ concat (map (\<lambda>i. visit n (Suc i) (s @ [i])) [Suc start..<n])"
    using assms by (subst visit.simps) (simp add: upt_conv_Cons)
  ultimately show ?thesis by simp
qed

lemma visit_mset:
  "mset (visit n start s) = mset (map ((@) s) (subseqs [start..<n]))"
proof (induction "n - start" arbitrary: start s)
  case 0
  then show ?case by (simp add: visit_Nil)
next
  case (Suc k)
  then have lt: "start < n" and k: "k = n - Suc start" by auto
  have "mset (visit n (Suc start) s) = add_mset s (mset (tl (visit n (Suc start) s)))"
    by (subst visit_hd) simp
  then have tl: "add_mset s (mset (tl (visit n (Suc start) s))) = mset (map ((@) s) (subseqs [Suc start..<n]))"
    using Suc.hyps(1) [OF k, of s] by simp
  have "mset (visit n start s) = mset (visit n (Suc start) (s @ [start])) + add_mset s (mset (tl (visit n (Suc start) s)))"
    by (subst visit_step [OF lt]) simp
  also have "\<dots> = mset (map ((@) (s @ [start])) (subseqs [Suc start..<n])) + mset (map ((@) s) (subseqs [Suc start..<n]))"
    using Suc.hyps(1) [OF k, of "s @ [start]"] tl by simp
  also have "\<dots> = mset (map ((@) s) (subseqs [start..<n]))"
  proof -
    have "(@) (s @ [start]) = (\<lambda>x. s @ start # x)" by auto
    then show ?thesis using lt by (simp add: upt_conv_Cons Let_def comp_def)
  qed
  finally show ?case .
qed

lemma generate_subsets_visit: "generate_subsets n = visit n 0 []"
  by (simp add: generate_subsets_def backtrack_visit)

lemma generate_subsets_mset: "mset (generate_subsets n) = mset (subseqs [0..<n])"
proof -
  have "map ((@) []) (subseqs [0..<n]) = subseqs [0..<n]"
    by (induction "subseqs [0..<n]") auto
  then show ?thesis
    using visit_mset [of n 0 "[]"] by (simp only: generate_subsets_visit)
qed

lemma gs_length: "length (generate_subsets n) = 2 ^ n"
  using arg_cong [OF generate_subsets_mset [of n], of size] by (simp add: length_subseqs)

lemma gs_set: "set (generate_subsets n) = {xs. subseq xs [0..<n]}"
  using arg_cong [OF generate_subsets_mset [of n], of set_mset] by (simp add: set_subseqs_eq)

lemma gs_distinct_sets: "distinct (map set (generate_subsets n))"
proof -
  have "mset (map set (generate_subsets n)) = mset (map set (subseqs [0..<n]))"
    by (simp add: generate_subsets_mset)
  moreover have "distinct (map set (subseqs [0..<n]))"
    by (rule distinct_set_subseqs) simp
  ultimately show ?thesis
    by (metis mset_eq_imp_distinct_iff)
qed

lemma gs_hd: "generate_subsets n = [] # tl (generate_subsets n)"
  unfolding generate_subsets_visit by (rule visit_hd)


lemma subseq_set_subset: "subseq xs ys \<Longrightarrow> set xs \<subseteq> set ys"
  by (induction rule: list_emb.induct) auto

lemma subseq_sorted_wrt: "subseq xs ys \<Longrightarrow> sorted_wrt P ys \<Longrightarrow> sorted_wrt P xs"
proof (induction rule: list_emb.induct)
  case (list_emb_Nil ys)
  then show ?case by simp
next
  case (list_emb_Cons xs ys y)
  then show ?case by simp
next
  case (list_emb_Cons2 x y xs ys)
  then have "set xs \<subseteq> set ys" by (simp add: subseq_set_subset)
  with list_emb_Cons2 show ?case by auto
qed

lemma gs_elems: 
  assumes "xs \<in> set (generate_subsets n)"
  shows "sorted_wrt (<) xs \<and> set xs \<subseteq> {0..<n}"
proof -
  from assms have s: "subseq xs [0..<n]" by (simp add: gs_set)
  have "sorted_wrt (<) [0..<n]" by simp
  with s have "sorted_wrt (<) xs" by (rule subseq_sorted_wrt)
  moreover have "set xs \<subseteq> {0..<n}" using subseq_set_subset [OF s] by simp
  ultimately show ?thesis by simp
qed

lemma gs_once: 
  assumes "S \<subseteq> {0..<n}"
  shows "length (filter (\<lambda>xs. set xs = S) (generate_subsets n)) = 1"
proof -
  have "set ` set (generate_subsets n) = Pow {0..<n}"
    using arg_cong [OF generate_subsets_mset [of n], of set_mset] subseqs_powset [of "[0..<n]"] by simp
  then have "S \<in> set (map set (generate_subsets n))" using assms by simp
  then have "count (mset (map set (generate_subsets n))) S = 1"
    using gs_distinct_sets [of n] by (simp add: distinct_count_atmost_1)
  moreover have "count (mset (map set L)) S = length (filter (\<lambda>xs. set xs = S) L)" for L :: "nat list list"
    by (induction L) auto
  ultimately show ?thesis by simp
qed

text \<open>
  Claim C10. For every natural number \<open>n\<close>, \<open>generate_subsets n\<close> returns exactly
  \<open>2 ^ n\<close> pairwise distinct lists, each strictly increasing with elements below \<open>n\<close>;
  every subset of \<open>{0..<n}\<close> is the element set of exactly one list of the result, and
  the empty list comes first.
\<close>

theorem generate_subsets_enumerates:
  "length (generate_subsets n) = 2 ^ n
   \<and> distinct (generate_subsets n)
   \<and> (\<forall>xs \<in> set (generate_subsets n). sorted_wrt (<) xs \<and> set xs \<subseteq> {0..<n})
   \<and> (\<forall>S. S \<subseteq> {0..<n} \<longrightarrow> length (filter (\<lambda>xs. set xs = S) (generate_subsets n)) = 1)
   \<and> (\<exists>rest. generate_subsets n = [] # rest)"
proof (intro conjI)
  show "length (generate_subsets n) = 2 ^ n" by (rule gs_length)
  show "distinct (generate_subsets n)"
    using gs_distinct_sets [of n] by (simp add: distinct_map)
  show "\<forall>xs \<in> set (generate_subsets n). sorted_wrt (<) xs \<and> set xs \<subseteq> {0..<n}"
    using gs_elems by blast
  show "\<forall>S. S \<subseteq> {0..<n} \<longrightarrow> length (filter (\<lambda>xs. set xs = S) (generate_subsets n)) = 1"
    using gs_once by blast
  show "\<exists>rest. generate_subsets n = [] # rest"
    using gs_hd [of n] by (rule exI)
qed

theorem generate_subsets_enumerates_witness:
  "{1} \<subseteq> {0..<2::nat}
   \<and> length (filter (\<lambda>xs. set xs = {1}) (generate_subsets 2)) = 1
   \<and> [] \<in> set (generate_subsets 2) \<and> sorted_wrt (<) ([] :: nat list)
   \<and> length (generate_subsets 2) = 4"
proof -
  note t = generate_subsets_enumerates [of 2]
  have a: "{1} \<subseteq> {0..<2::nat}" by simp
  from t have "\<forall>S. S \<subseteq> {0..<2} \<longrightarrow> length (filter (\<lambda>xs. set xs = S) (generate_subsets 2)) = 1"
    by (elim conjE)
  with a have b: "length (filter (\<lambda>xs. set xs = {1}) (generate_subsets 2)) = 1" by (elim allE impE)
  from t obtain rest where "generate_subsets 2 = [] # rest" by (elim conjE exE)
  then have c: "[] \<in> set (generate_subsets 2)" by simp
  from t have d: "length (generate_subsets 2) = 4" by simp
  from a b c d show ?thesis by simp
qed

section \<open>Proofs: molecular graphs\<close>

lemma bnd_Inr: "bnd m f = Inr r \<longleftrightarrow> (\<exists>v. m = Inr v \<and> f v = Inr r)"
  by (cases m) (simp_all add: bnd_def)

lemma py_index_lt: "py_index n i = Inr a \<Longrightarrow> a < n"
  by (auto simp: py_index_def split: if_splits)

lemma square_update: "square n m \<Longrightarrow> a < n \<Longrightarrow> square n (m[a := (m ! a)[b := v]])"
  by (auto simp: square_def dest!: set_update_subset_insert [THEN subsetD])

lemma set_edge_eq:
  assumes "square n m" "set_edge m i j v = Inr m'"
  obtains a c where "py_index n i = Inr a" "py_index n j = Inr c" "a < n" "c < n"
    "m' = m[a := (m ! a)[c := v]]"
proof -
  have len: "length m = n" using assms(1) by (simp add: square_def)
  from assms(2) obtain a c where a: "py_index (length m) i = Inr a"
    and c: "py_index (length (m ! a)) j = Inr c" and m': "m' = m[a := (m ! a)[c := v]]"
    by (auto simp: set_edge_def bnd_Inr)
  have an: "a < n" using a len by (auto dest: py_index_lt)
  then have "length (m ! a) = n" using assms(1) len by (simp add: square_def)
  with a c len an m' that show ?thesis by (auto dest: py_index_lt)
qed

lemma set_edge_square:
  assumes "square n m" "set_edge m i j v = Inr m'"
  shows "square n m'"
proof -
  from assms obtain a c where "a < n" "m' = m[a := (m ! a)[c := v]]"
    by (rule set_edge_eq)
  then show ?thesis using square_update [OF assms(1)] by simp
qed

lemma add_bond_inv:
  assumes "square n m" "symmetric m" "add_bond m b = Inr m'"
  shows "square n m' \<and> symmetric m'"
proof -
  obtain i j where ij: "endpoint_atoms b = (i, j)" by (cases "endpoint_atoms b")
  from assms(3) ij obtain v m1 w where v: "getitem BOND_TO_INT (bond_type b) = Inr v"
    and m1: "set_edge m i j v = Inr m1" and w: "getitem BOND_TO_INT (bond_type b) = Inr w"
    and m': "set_edge m1 j i w = Inr m'"
    by (auto simp: add_bond_def bnd_Inr)
  have wv: "w = v" using v w by simp
  have len: "length m = n" and rows: "\<And>k. k < n \<Longrightarrow> length (m ! k) = n"
    using assms(1) by (auto simp: square_def)
  from assms(1) m1 obtain a c where a: "py_index n i = Inr a" and c: "py_index n j = Inr c"
    and an: "a < n" and cn: "c < n" and m1_eq: "m1 = m[a := (m ! a)[c := v]]"
    by (rule set_edge_eq)
  have sq1: "square n m1" using set_edge_square [OF assms(1) m1] .
  then have len1: "length m1 = n" and rows1: "\<And>k. k < n \<Longrightarrow> length (m1 ! k) = n"
    by (auto simp: square_def)
  from sq1 m' obtain c' a' where "py_index n j = Inr c'" "py_index n i = Inr a'"
    and "m' = m1[c' := (m1 ! c')[a' := w]]"
    by (rule set_edge_eq)
  then have m'_eq: "m' = m1[c := (m1 ! c)[a := v]]"
    using a c wv by simp
  have sq: "square n m'" using set_edge_square [OF sq1 m'] .
  have entry: "m' ! p ! q = (if (p = a \<and> q = c) \<or> (p = c \<and> q = a) then v else m ! p ! q)"
    if "p < n" "q < n" for p q
    using that an cn len rows [of a] rows [of c] rows [of p]
    by (auto simp: m'_eq m1_eq nth_list_update)
  have "symmetric m'"
    unfolding symmetric_def
  proof (intro allI impI)
    fix p q assume "p < length m'" "q < length m'"
    then have p: "p < n" and q: "q < n" using sq by (auto simp: square_def)
    have "m ! p ! q = m ! q ! p" using assms(2) p q len by (simp add: symmetric_def)
    then show "m' ! p ! q = m' ! q ! p" using entry [OF p q] entry [OF q p] by auto
  qed
  with sq show ?thesis by simp
qed

lemma add_bonds_inv:
  "square n m \<Longrightarrow> symmetric m \<Longrightarrow> add_bonds m bs = Inr m' \<Longrightarrow> square n m' \<and> symmetric m'"
proof (induction bs arbitrary: m)
  case Nil
  then show ?case by simp
next
  case (Cons b bs)
  from Cons.prems(3) obtain m1 where 1: "add_bond m b = Inr m1" and 2: "add_bonds m1 bs = Inr m'"
    by (auto simp: bnd_Inr)
  from add_bond_inv [OF Cons.prems(1,2) 1] Cons.IH [OF _ _ 2] show ?case by blast
qed

lemma zero_matrix: "square n (replicate n (replicate n 0)) \<and> symmetric (replicate n (replicate n 0))"
  by (simp add: square_def symmetric_def)

lemma init_graph_ok: "init_graph k i elt = Inr (Some g) \<Longrightarrow> graph_ok g"
  by (auto simp: init_graph_def bnd_Inr graph_ok_def square_def symmetric_def split: item.splits if_splits)

lemma collect_mols_ok: "collect_mols k i elts = Inr gs \<Longrightarrow> g \<in> set gs \<Longrightarrow> symbols g = [] \<and> edges g = []"
proof (induction elts arbitrary: i gs)
  case Nil
  then show ?case by simp
next
  case (Cons elt elts)
  then show ?case
    by (auto simp: bnd_Inr init_graph_def split: option.splits item.splits if_splits)
qed

lemma collect_reaction_ok: "collect_reaction r = Inr gs \<Longrightarrow> g \<in> set gs \<Longrightarrow> symbols g = [] \<and> edges g = []"
proof (induction r arbitrary: gs rule: collect_reaction.induct)
  case 1
  then show ?case by simp
next
  case (2 k molecules rest)
  then show ?case by (auto simp: bnd_Inr dest: collect_mols_ok)
qed

lemma fill_graph_ok: 
  assumes "symbols g = []" "fill_graph mol g = Inr g'"
  shows "graph_ok g'"
proof -
  let ?n = "length (atoms mol)"
  from assms(2) obtain e where e: "add_bonds (replicate ?n (replicate ?n 0)) (bonds mol) = Inr e"
    and g': "g' = g\<lparr>coords := coords g @ map (\<lambda>a. (atom_x a, atom_y a)) (atoms mol),
                  symbols := symbols g @ map atom_symbol (atoms mol), edges := e\<rparr>"
    by (auto simp: fill_graph_def Let_def bnd_Inr)
  from add_bonds_inv [OF _ _ e] zero_matrix [of ?n] have "square ?n e \<and> symmetric e" by blast
  then show ?thesis using assms(1) by (simp add: g' graph_ok_def)
qed

lemma fill_graphs_ok:
  "fill_graphs mols gs = Inr gs' \<Longrightarrow> \<forall>g \<in> set gs. symbols g = [] \<and> edges g = [] \<Longrightarrow> g' \<in> set gs' \<Longrightarrow> graph_ok g'"
proof (induction mols arbitrary: gs gs')
  case Nil
  then show ?case by (auto simp: graph_ok_def square_def symmetric_def)
next
  case (Cons mol mols)
  show ?case
  proof (cases gs)
    case Nil
    then show ?thesis using Cons.prems by simp
  next
    case (Cons r rs)
    from Cons.prems(1) Cons obtain h hs where h: "fill_graph mol r = Inr h"
      and hs: "fill_graphs mols rs = Inr hs" and gs': "gs' = h # hs"
      by (auto simp: bnd_Inr)
    have "graph_ok h" using fill_graph_ok [OF _ h] Cons.prems(2) Cons by simp
    moreover have "g' \<in> set hs \<Longrightarrow> graph_ok g'"
      using Cons.IH [OF hs] Cons.prems(2) Cons by simp
    ultimately show ?thesis using Cons.prems(3) gs' by auto
  qed
qed

text \<open>
  Claim C9. Every graph that \<open>get_atoms_and_bonds\<close> returns has a square adjacency
  matrix whose side is the number of atoms, and the matrix is symmetric.
\<close>

theorem get_atoms_and_bonds_square_symmetric:
  assumes "get_atoms_and_bonds predict_images reaction = Inr graphs" and "g \<in> set graphs"
  shows "length (edges g) = length (symbols g)
         \<and> (\<forall>row \<in> set (edges g). length row = length (symbols g))
         \<and> (\<forall>i < length (symbols g). \<forall>j < length (symbols g). edges g ! i ! j = edges g ! j ! i)"
proof -
  from assms(1) obtain results where r: "collect_reaction reaction = Inr results"
    and f: "fill_graphs (predict_images (map image results)) results = Inr graphs"
    by (auto simp: get_atoms_and_bonds_def bnd_Inr)
  have "\<forall>g \<in> set results. symbols g = [] \<and> edges g = []"
    using collect_reaction_ok [OF r] by blast
  from fill_graphs_ok [OF f this assms(2)] show ?thesis
    by (simp add: graph_ok_def square_def symmetric_def)
qed

lemma ex_get_atoms_and_bonds: "get_atoms_and_bonds ex_predict_images ex_reaction = Inr [ex_graph]"
  by (simp add: get_atoms_and_bonds_def ex_reaction_def ex_mol_entity_def ex_predict_images_def
      ex_graph_def init_graph_def fill_graph_def add_bond_def set_edge_def py_index_def
      getitem_def BOND_TO_INT_def bnd_def Let_def)

theorem get_atoms_and_bonds_square_symmetric_witness:
  "get_atoms_and_bonds ex_predict_images ex_reaction = Inr [ex_graph] \<and> ex_graph \<in> set [ex_graph]
   \<and> length (edges ex_graph) = 2 \<and> edges ex_graph ! 0 ! 1 = edges ex_graph ! 1 ! 0"
  using get_atoms_and_bonds_square_symmetric [OF ex_get_atoms_and_bonds, of ex_graph]
    ex_get_atoms_and_bonds
  by (simp add: ex_graph_def)

section \<open>Proofs: backout reconciliation\<close>

lemma foldE_rel:
  assumes step: "\<And>a s t. a \<in> set xs \<Longrightarrow> f a s = Inr t \<Longrightarrow> R s t"
    and refl: "\<And>s. R s s" and trans: "\<And>s t u. R s t \<Longrightarrow> R t u \<Longrightarrow> R s u"
    and run: "foldE f xs s = Inr s'"
  shows "R s s'"
  using step run
proof (induction xs arbitrary: s)
  case Nil
  then show ?case using refl by simp
next
  case (Cons a xs)
  from Cons.prems(2) obtain t where t: "f a s = Inr t" and rest: "foldE f xs t = Inr s'"
    by (auto simp: bnd_Inr)
  have "R s t" using Cons.prems(1) [of a s t] t by simp
  moreover have "R t s'"
  proof (rule Cons.IH [OF _ rest])
    fix b u v assume "b \<in> set xs" "f b u = Inr v"
    then show "R u v" using Cons.prems(1) [of b u v] by simp
  qed
  ultimately show ?case by (rule trans)
qed

lemma foldE_append: "foldE f (xs @ ys) s = bnd (foldE f xs s) (foldE f ys)"
  by (induction xs arbitrary: s) (auto simp: bnd_def split: sum.splits)

lemma foldE_concat: "foldE (\<lambda>xs. foldE f xs) xss s = foldE f (concat xss) s"
  by (induction xss arbitrary: s) (auto simp: foldE_append bnd_def split: sum.splits)

lemma foldE_map: "foldE (\<lambda>a. h (p a)) xs s = foldE h (map p xs) s"
  by (induction xs arbitrary: s) (auto simp: bnd_def split: sum.splits)

lemma collect_concrete:
  "foldE (\<lambda>rxn rs. bnd (no_rgroup rxn) (\<lambda>b. Inr (if b then rs @ [rxn] else rs))) xs acc = Inr rs'
   \<Longrightarrow> rs' = acc @ filter concrete xs"
proof (induction xs arbitrary: acc)
  case Nil
  then show ?case by simp
next
  case (Cons a xs)
  from Cons.prems obtain b where b: "no_rgroup a = Inr b"
    and rest: "foldE (\<lambda>rxn rs. bnd (no_rgroup rxn) (\<lambda>b. Inr (if b then rs @ [rxn] else rs))) xs
                 (if b then acc @ [a] else acc) = Inr rs'"
    by (auto simp: bnd_Inr)
  from Cons.IH [OF rest] b show ?case by (auto simp: concrete_def)
qed

lemma first_pass_acc:
  "foldE (\<lambda>res final_results.
              bnd (foldE (\<lambda>rxn rs. bnd (no_rgroup rxn) (\<lambda>b. Inr (if b then rs @ [rxn] else rs)))
                         (reactions res) [])
                  (\<lambda>rs. Inr (final_results @ [\<lparr>reactions = rs, page = None\<rparr>])))
           results acc = Inr fr
   \<Longrightarrow> fr = acc @ map (\<lambda>res. \<lparr>reactions = filter concrete (reactions res), page = None\<rparr>) results"
proof (induction results arbitrary: acc)
  case Nil
  then show ?case by simp
next
  case (Cons res results)
  from Cons.prems obtain rs where rs: "foldE (\<lambda>rxn rs. bnd (no_rgroup rxn) (\<lambda>b. Inr (if b then rs @ [rxn] else rs)))
                         (reactions res) [] = Inr rs"
    and rest: "foldE (\<lambda>res final_results.
              bnd (foldE (\<lambda>rxn rs. bnd (no_rgroup rxn) (\<lambda>b. Inr (if b then rs @ [rxn] else rs)))
                         (reactions res) [])
                  (\<lambda>rs. Inr (final_results @ [\<lparr>reactions = rs, page = None\<rparr>])))
           results (acc @ [\<lparr>reactions = rs, page = None\<rparr>]) = Inr fr"
    by (auto simp: bnd_Inr)
  from collect_concrete [OF rs] Cons.IH [OF rest] show ?case by simp
qed

lemma first_pass_eq:
  "first_pass results = Inr fr
   \<Longrightarrow> fr = map (\<lambda>res. \<lparr>reactions = filter concrete (reactions res), page = None\<rparr>) results"
  unfolding first_pass_def by (drule first_pass_acc) simp

lemma grows_by_refl: "grows_by Q fr fr"
  by (simp add: grows_by_def)

lemma grows_by_trans:
  assumes "grows_by Q a b" "grows_by Q b c"
  shows "grows_by Q a c"
  unfolding grows_by_def
proof (intro conjI allI impI)
  show "length c = length a" using assms by (simp add: grows_by_def)
next
  fix i assume i: "i < length a"
  then have ib: "i < length b" using assms(1) by (simp add: grows_by_def)
  from assms(1) i obtain em1 where 1: "reactions (b ! i) = reactions (a ! i) @ em1" "\<forall>e \<in> set em1. Q e"
    unfolding grows_by_def by blast
  from assms(2) ib obtain em2 where 2: "reactions (c ! i) = reactions (b ! i) @ em2" "\<forall>e \<in> set em2. Q e"
    unfolding grows_by_def by blast
  have "reactions (c ! i) = reactions (a ! i) @ (em1 @ em2) \<and> (\<forall>e \<in> set (em1 @ em2). Q e)"
    using 1 2 by auto
  then show "\<exists>em. reactions (c ! i) = reactions (a ! i) @ em \<and> (\<forall>e \<in> set em. Q e)" by blast
qed

lemma append_new_res_eq:
  "fr \<noteq> [] \<Longrightarrow> append_new_res fr e = butlast fr @ [(last fr)\<lparr>reactions := reactions (last fr) @ [e]\<rparr>]"
  by (cases fr rule: rev_cases) (simp_all add: append_new_res_def)

lemma append_new_res_Nil: "append_new_res [] e = []"
  by (simp add: append_new_res_def)

lemma append_new_res_grows: 
  assumes "Q e"
  shows "grows_by Q fr (append_new_res fr e)"
proof (cases fr rule: rev_cases)
  case Nil
  then show ?thesis by (simp add: append_new_res_Nil grows_by_def)
next
  case (snoc ys y)
  have eq: "append_new_res fr e = ys @ [y\<lparr>reactions := reactions y @ [e]\<rparr>]"
    using snoc by (simp add: append_new_res_def)
  show ?thesis
    unfolding grows_by_def eq
  proof (intro conjI allI impI)
    show "length (ys @ [y\<lparr>reactions := reactions y @ [e]\<rparr>]) = length fr" using snoc by simp
  next
    fix i assume "i < length fr"
    then consider "i < length ys" | "i = length ys" using snoc by force
    then show "\<exists>em. reactions ((ys @ [y\<lparr>reactions := reactions y @ [e]\<rparr>]) ! i) = reactions (fr ! i) @ em
                 \<and> (\<forall>e \<in> set em. Q e)"
    proof cases
      case 1
      then show ?thesis using snoc by (simp add: nth_append)
    next
      case 2
      then show ?thesis using snoc assms by (simp add: nth_append)
    qed
  qed
qed

lemma try_other_cases:
  assumes "try_other M H m P ps other fr = Inr fr'"
  shows "(candidate_matches M H ps other \<and> (\<exists>e. make_new_rxn m P = Inr e \<and> fr' = append_new_res fr e))
         \<or> (\<not> candidate_matches M H ps other \<and> fr' = fr)"
proof -
  from assms obtain ops where ops: "product_smiles other = Inr ops"
    by (auto simp: try_other_def bnd_Inr)
  show ?thesis
  proof (cases ops)
    case None
    then show ?thesis using assms ops by (simp add: try_other_def candidate_matches_def bnd_def)
  next
    case (Some v)
    show ?thesis
    proof (cases v)
      case VNone
      then show ?thesis using assms ops Some by (simp add: try_other_def candidate_matches_def bnd_def)
    next
      case (VStr t)
      show ?thesis
      proof (cases "CHR ''*'' \<notin> set t \<and> similar M H ps t")
        case True
        then have "candidate_matches M H ps other" using ops Some VStr by (simp add: candidate_matches_def)
        moreover have "\<exists>e. make_new_rxn m P = Inr e \<and> fr' = append_new_res fr e"
          using assms ops Some VStr True by (auto simp: try_other_def bnd_Inr)
        ultimately show ?thesis by blast
      next
        case False
        then have "\<not> candidate_matches M H ps other" using ops Some VStr by (simp add: candidate_matches_def)
        moreover have "fr' = fr" using assms ops Some VStr False by (auto simp: try_other_def bnd_def)
        ultimately show ?thesis by blast
      qed
    next
      case (VObj n)
      then show ?thesis using assms ops Some by (simp add: try_other_def candidate_matches_def bnd_def)
    qed
  qed
qed

lemma try_other_grows:
  assumes "try_other M H m P ps other fr = Inr fr'"
    and "\<And>e. make_new_rxn m P = Inr e \<Longrightarrow> Q e"
  shows "grows_by Q fr fr'"
  using try_other_cases [OF assms(1)] assms(2)
  by (auto simp: grows_by_refl append_new_res_grows)

lemma back_out_rxn_grows:
  assumes run: "back_out_rxn M H results m P fr = Inr fr'"
    and Q: "\<And>e. has_wildcard P \<Longrightarrow> make_new_rxn m P = Inr e \<Longrightarrow> Q e"
  shows "grows_by Q fr fr'"
proof -
  from run obtain ps where ps: "product_smiles P = Inr ps"
    by (auto simp: back_out_rxn_def bnd_Inr)
  show ?thesis
  proof (cases "\<exists>s. ps = Some (VStr s) \<and> CHR ''*'' \<in> set s")
    case False
    then have "fr' = fr" using run ps
      by (auto simp: back_out_rxn_def bnd_def split: option.splits val.splits if_splits)
    then show ?thesis by (simp add: grows_by_refl)
  next
    case True
    then obtain s where s: "ps = Some (VStr s)" "CHR ''*'' \<in> set s" by blast
    then have w: "has_wildcard P" using ps by (auto simp: has_wildcard_def)
    from run ps s have loop:
      "foldE (\<lambda>other_res. foldE (try_other M H m P s) (reactions other_res)) results fr = Inr fr'"
      by (simp add: back_out_rxn_def bnd_def)
    show ?thesis
    proof (rule foldE_rel [OF _ grows_by_refl grows_by_trans loop])
      fix other_res u v
      assume "foldE (try_other M H m P s) (reactions other_res) u = Inr v"
      then show "grows_by Q u v"
      proof (rule foldE_rel [OF _ grows_by_refl grows_by_trans, rotated -1])
        fix other a b assume "try_other M H m P s other a = Inr b"
        then show "grows_by Q a b" using Q [OF w] by (rule try_other_grows)
      qed
    qed
  qed
qed

lemma second_pass_grows:
  assumes "second_pass M H results corefs fr = Inr fr'"
  shows "grows_by (emitted_by results corefs) fr fr'"
proof (rule foldE_rel [OF _ grows_by_refl grows_by_trans assms [unfolded second_pass_def]])
  fix a u v
  assume a: "a \<in> set (enumerate 0 results)"
    and step: "(case a of (i, res) \<Rightarrow> \<lambda>fr.
              bnd (clean_corefs corefs i) (\<lambda>coref_res.
              case coref_res of
                None \<Rightarrow> Inr fr
              | Some (mol_bboxes_text, coref_smiles, bboxes) \<Rightarrow>
                  foldE (back_out_rxn M H results
                           (coref_smiles_to_graphs coref_smiles mol_bboxes_text))
                        (reactions res) fr)) u = Inr v"
  obtain i res where ir: "a = (i, res)" by (cases a)
  with a have i: "i < length results" and res: "res = results ! i"
    by (auto simp: in_set_enumerate_eq)
  from step ir obtain cr where cr: "clean_corefs corefs i = Inr cr"
    and body: "(case cr of None \<Rightarrow> Inr u
                | Some (mol_bboxes_text, coref_smiles, bboxes) \<Rightarrow>
                    foldE (back_out_rxn M H results
                             (coref_smiles_to_graphs coref_smiles mol_bboxes_text))
                          (reactions res) u) = Inr v"
    by (auto simp: bnd_Inr)
  show "grows_by (emitted_by results corefs) u v"
  proof (cases cr)
    case None
    then show ?thesis using body by (simp add: grows_by_refl)
  next
    case (Some t)
    obtain mbt cs b where t: "t = (mbt, cs, b)" by (cases t)
    from body Some t have loop:
      "foldE (back_out_rxn M H results (coref_smiles_to_graphs cs mbt)) (reactions res) u = Inr v"
      by simp
    show ?thesis
    proof (rule foldE_rel [OF _ grows_by_refl grows_by_trans loop])
      fix P x y
      assume P: "P \<in> set (reactions res)"
        and r: "back_out_rxn M H results (coref_smiles_to_graphs cs mbt) P x = Inr y"
      show "grows_by (emitted_by results corefs) x y"
      proof (rule back_out_rxn_grows [OF r])
        fix e assume "has_wildcard P" "make_new_rxn (coref_smiles_to_graphs cs mbt) P = Inr e"
        then show "emitted_by results corefs e"
          unfolding emitted_by_def using i P res cr Some t by blast
      qed
    qed
  qed
qed

lemma backout_shape:
  assumes "backout M H results corefs = Inr final"
  shows "grows_by (emitted_by results corefs)
           (map (\<lambda>res. \<lparr>reactions = filter concrete (reactions res), page = None\<rparr>) results) final"
proof -
  from assms obtain fr where fr: "first_pass results = Inr fr"
    and sp: "second_pass M H results corefs fr = Inr final"
    by (auto simp: backout_def bnd_Inr)
  from first_pass_eq [OF fr] second_pass_grows [OF sp] show ?thesis by simp
qed

text \<open>
  Claim C1, as amended. The returned list has one entry per template. The instance list
  of each returned template consists of the template's instances whose first product has
  a structure string without \<open>*\<close> and without \<open>R\<close>, in their original order, followed
  only by instances that the reconciliation emitted (each built by \<open>make_new_rxn\<close> from
  a reaction with a wildcard product of a figure with a usable coreference record). A
  template with at least one such concrete instance still has at least one instance.
\<close>

theorem backout_keeps_concrete:
  assumes "backout MolFromSmiles HasSubstructMatch results coref_results = Inr final"
  shows "length final = length results
         \<and> (\<forall>i < length results.
               (\<exists>emitted.
                   reactions (final ! i) = filter concrete (reactions (results ! i)) @ emitted
                   \<and> (\<forall>e \<in> set emitted. emitted_by results coref_results e))
               \<and> ((\<exists>rxn \<in> set (reactions (results ! i)). concrete rxn) \<longrightarrow> reactions (final ! i) \<noteq> []))"
proof (intro conjI allI impI)
  note g = backout_shape [OF assms, unfolded grows_by_def]
  show "length final = length results" using g by simp
  fix i assume i: "i < length results"
  with g obtain em where em: "reactions (final ! i) = filter concrete (reactions (results ! i)) @ em"
    and Q: "\<forall>e \<in> set em. emitted_by results coref_results e"
    by auto
  then show "\<exists>emitted.
                   reactions (final ! i) = filter concrete (reactions (results ! i)) @ emitted
                   \<and> (\<forall>e \<in> set emitted. emitted_by results coref_results e)"
    by blast
  assume "\<exists>rxn \<in> set (reactions (results ! i)). concrete rxn"
  then have "filter concrete (reactions (results ! i)) \<noteq> []" by (simp add: filter_empty_conv)
  with em show "reactions (final ! i) \<noteq> []" by simp
qed

lemma mapE_Inr:
  "mapE f xs = Inr ys \<Longrightarrow> length ys = length xs \<and> (\<forall>n < length xs. f (xs ! n) = Inr (ys ! n))"
proof (induction xs arbitrary: ys)
  case Nil
  then show ?case by simp
next
  case (Cons a xs)
  from Cons.prems obtain b bs where b: "f a = Inr b" and bs: "mapE f xs = Inr bs" and ys: "ys = b # bs"
    by (auto simp: bnd_Inr)
  from Cons.IH [OF bs] b ys show ?case by (auto simp: nth_Cons split: nat.splits)
qed

lemma relabel_Inr:
  assumes "relabel m r = Inr r'"
  shows "\<exists>d. r = Ent d \<and> r' = (case Option.bind (map_of d ''smiles'') (map_of m) of
                                 Some label \<Rightarrow> Ent [(''smiles'', VStr label)] | None \<Rightarrow> r)"
  using assms by (auto simp: relabel_def split: item.splits option.splits)

lemma make_new_rxn_Inr:
  assumes "make_new_rxn m P = Inr e"
  shows "map_of e ''products'' = map_of P ''products'' \<and> map_of e ''conditions'' = None
         \<and> (\<exists>reactants new. map_of P ''reactants'' = Some reactants \<and> map_of e ''reactants'' = Some new
               \<and> length new = length reactants
               \<and> (\<forall>n < length reactants. \<exists>d. reactants ! n = Ent d
                      \<and> new ! n = (case Option.bind (map_of d ''smiles'') (map_of m) of
                                     Some label \<Rightarrow> Ent [(''smiles'', VStr label)]
                                   | None \<Rightarrow> reactants ! n)))"
proof -
  from assms obtain products reactants new where p: "getitem P ''products'' = Inr products"
    and r: "getitem P ''reactants'' = Inr reactants" and n: "mapE (relabel m) reactants = Inr new"
    and e: "e = [(''reactants'', new), (''products'', products)]"
    by (auto simp: make_new_rxn_def bnd_Inr)
  from p have p': "map_of P ''products'' = Some products"
    by (auto simp: getitem_def split: option.splits)
  from r have r': "map_of P ''reactants'' = Some reactants"
    by (auto simp: getitem_def split: option.splits)
  from mapE_Inr [OF n] have len: "length new = length reactants"
    and each: "\<And>k. k < length reactants \<Longrightarrow> relabel m (reactants ! k) = Inr (new ! k)" by auto
  have "\<forall>n < length reactants. \<exists>d. reactants ! n = Ent d
          \<and> new ! n = (case Option.bind (map_of d ''smiles'') (map_of m) of
                         Some label \<Rightarrow> Ent [(''smiles'', VStr label)] | None \<Rightarrow> reactants ! n)"
    using each relabel_Inr by blast
  with p' r' len e show ?thesis by simp
qed

lemma all_reactions_append_new_res:
  "fr \<noteq> [] \<Longrightarrow> all_reactions (append_new_res fr e) = all_reactions fr @ [e]
      \<and> append_new_res fr e \<noteq> []"
  by (cases fr rule: rev_cases) (simp_all add: append_new_res_def all_reactions_def)

lemma foldE_try_other_ok:
  assumes "make_new_rxn m P = Inr e"
  shows "foldE (try_other M H m P ps) cs fr = Inr fr' \<Longrightarrow> fr \<noteq> [] \<Longrightarrow>
         fr' \<noteq> [] \<and> all_reactions fr' = all_reactions fr
              @ replicate (length (filter (candidate_matches M H ps) cs)) e"
proof (induction cs arbitrary: fr)
  case Nil
  then show ?case by simp
next
  case (Cons c cs)
  from Cons.prems(1) obtain fr1 where 1: "try_other M H m P ps c fr = Inr fr1"
    and rest: "foldE (try_other M H m P ps) cs fr1 = Inr fr'"
    by (auto simp: bnd_Inr)
  show ?case
  proof (cases "candidate_matches M H ps c")
    case True
    with try_other_cases [OF 1] assms have fr1: "fr1 = append_new_res fr e" by auto
    with all_reactions_append_new_res [OF Cons.prems(2), of e]
    have ne: "fr1 \<noteq> []" and ar: "all_reactions fr1 = all_reactions fr @ [e]" by auto
    from Cons.IH [OF rest ne] ar True show ?thesis by (simp add: replicate_app_Cons_same)
  next
    case False
    with try_other_cases [OF 1] have "fr1 = fr" by auto
    with Cons.IH [OF rest] Cons.prems(2) False show ?thesis by simp
  qed
qed

lemma foldE_try_other_fail:
  assumes "make_new_rxn m P = Inl err"
  shows "foldE (try_other M H m P ps) cs fr = Inr fr' \<Longrightarrow>
         fr' = fr \<and> filter (candidate_matches M H ps) cs = []"
proof (induction cs arbitrary: fr)
  case Nil
  then show ?case by simp
next
  case (Cons c cs)
  from Cons.prems(1) obtain fr1 where 1: "try_other M H m P ps c fr = Inr fr1"
    and rest: "foldE (try_other M H m P ps) cs fr1 = Inr fr'"
    by (auto simp: bnd_Inr)
  from try_other_cases [OF 1] assms have "fr1 = fr \<and> \<not> candidate_matches M H ps c" by auto
  with Cons.IH [OF rest] show ?case by simp
qed

text \<open>
  Claim C3, as amended. For a reaction \<open>P\<close> with a wildcard product the candidates are
  the reactions of all templates, in template order and then instance order; a candidate
  matches when its first product has a structure string without \<open>*\<close> and the similarity
  test of the code succeeds. One and the same new instance is appended for every
  matching candidate, so \<open>P\<close> yields as many instances as candidates match.
\<close>

theorem back_out_rxn_emits_per_match:
  assumes run: "back_out_rxn MolFromSmiles HasSubstructMatch results m P final_results = Inr final_results'"
    and ps: "product_smiles P = Inr (Some (VStr prod_smiles))" "CHR ''*'' \<in> set prod_smiles"
    and ne: "final_results \<noteq> []"
  shows "\<exists>new_rxn.
           all_reactions final_results' = all_reactions final_results
             @ replicate (length (filter (candidate_matches MolFromSmiles HasSubstructMatch prod_smiles)
                                         (all_reactions results))) new_rxn
           \<and> (filter (candidate_matches MolFromSmiles HasSubstructMatch prod_smiles) (all_reactions results) \<noteq> []
                \<longrightarrow> make_new_rxn m P = Inr new_rxn)"
proof -
  let ?t = "try_other MolFromSmiles HasSubstructMatch m P prod_smiles"
  from run ps have "foldE (\<lambda>other_res. foldE ?t (reactions other_res)) results final_results = Inr final_results'"
    by (simp add: back_out_rxn_def bnd_def)
  then have loop: "foldE ?t (all_reactions results) final_results = Inr final_results'"
    by (simp add: foldE_map [where h = "\<lambda>xs. foldE ?t xs" and p = reactions] foldE_concat all_reactions_def)
  show ?thesis
  proof (cases "make_new_rxn m P")
    case (Inl err)
    from foldE_try_other_fail [OF Inl loop] show ?thesis by simp
  next
    case (Inr e)
    from foldE_try_other_ok [OF Inr loop ne] Inr show ?thesis by blast
  qed
qed

lemma ex_backout_run:
  "backout ex_MolFromSmiles ex_HasSubstructMatch ex_results [ex_coref] = Inr ex_final"
  by code_simp

lemma ex_concrete: "filter concrete (reactions (ex_results ! 0)) = [ex_C, ex_C2]"
  unfolding concrete_def by code_simp

theorem backout_keeps_concrete_witness:
  "backout ex_MolFromSmiles ex_HasSubstructMatch ex_results [ex_coref] = Inr ex_final
   \<and> reactions (ex_final ! 0) = filter concrete (reactions (ex_results ! 0)) @ [ex_new_rxn, ex_new_rxn]
   \<and> emitted_by ex_results [ex_coref] ex_new_rxn
   \<and> (\<exists>rxn \<in> set (reactions (ex_results ! 0)). concrete rxn)
   \<and> reactions (ex_final ! 0) \<noteq> []"
proof -
  have len: "0 < length ex_results" by (simp add: ex_results_def)
  have c: "concrete ex_C" unfolding concrete_def by code_simp
  have "ex_C \<in> set (reactions (ex_results ! 0))" by (simp add: ex_results_def)
  with c have ex: "\<exists>rxn \<in> set (reactions (ex_results ! 0)). concrete rxn" by blast
  from backout_keeps_concrete [OF ex_backout_run] len obtain emitted where
    em: "reactions (ex_final ! 0) = filter concrete (reactions (ex_results ! 0)) @ emitted"
    and Q: "\<forall>e \<in> set emitted. emitted_by ex_results [ex_coref] e"
    and ne: "(\<exists>rxn \<in> set (reactions (ex_results ! 0)). concrete rxn) \<longrightarrow> reactions (ex_final ! 0) \<noteq> []"
    by blast
  from em have "emitted = [ex_new_rxn, ex_new_rxn]"
    by (simp add: ex_concrete ex_final_def)
  with em Q ne ex ex_backout_run show ?thesis by simp
qed

theorem backout_drops_wildcard_counterexample:
  "backout ex_MolFromSmiles ex_HasSubstructMatch [\<lparr>reactions = [ex_P], page = Some (VObj 1)\<rparr>] []
     = Inr [\<lparr>reactions = [], page = None\<rparr>]"
  by code_simp

lemma coref_smiles_to_graphs_empty: "coref_smiles_to_graphs coref_smiles mol_bboxes_text = []"
proof -
  have inner: "fold (\<lambda>(text, smiles) m'. if py_eq_str_dict v text then AList.update smiles k m' else m')
                    mbt m = m" for v k mbt and m :: "(val \<times> string) list"
    by (induction mbt) (auto simp: py_eq_str_dict_def)
  have "fold (\<lambda>(k, v) m.
                fold (\<lambda>(text, smiles) m'. if py_eq_str_dict v text then AList.update smiles k m' else m')
                     mol_bboxes_text m) cs m0 = m0" for cs and m0 :: "(val \<times> string) list"
    by (induction cs) (auto simp: inner)
  then show ?thesis by (simp add: coref_smiles_to_graphs_def)
qed

text \<open>
  Claim C2. A template holds the wildcard reaction \<open>ex_P2\<close>, whose reactant has the
  structure \<open>CBr\<close>, and the concrete reaction \<open>ex_C\<close>; the coreference record of the
  figure has a molecule with the same structure \<open>CBr\<close> and the identifier text
  \<open>3a CBr\<close>. The structure-to-label map that \<open>backout\<close> builds is empty, here as for
  every input, so the reactant is not replaced by the label; the emitted instance takes
  its products from the wildcard reaction and not from the concrete one, and it has no
  conditions.
\<close>

theorem backout_emits_from_P_alone:
  "backout ex_MolFromSmiles ex_HasSubstructMatch
       [\<lparr>reactions = [ex_P2, ex_C], page = Some (VObj 1)\<rparr>] [ex_coref2]
     = Inr [\<lparr>reactions = [ex_C, ex_new_rxn2], page = None\<rparr>]
   \<and> clean_corefs [ex_coref2] 0
       = Inr (Some ([([(''smiles'', VStr ''CBr'')], VStr ''CBr'')], [(''3a'', ''CBr'')], CList []))
   \<and> coref_smiles_to_graphs [(''3a'', ''CBr'')] [([(''smiles'', VStr ''CBr'')], VStr ''CBr'')] = []
   \<and> map_of ex_new_rxn2 ''reactants'' = map_of ex_P2 ''reactants''
   \<and> map_of ex_new_rxn2 ''reactants'' \<noteq> Some [Ent [(''smiles'', VStr ''3a'')]]
   \<and> map_of ex_new_rxn2 ''products'' = map_of ex_P2 ''products''
   \<and> map_of ex_new_rxn2 ''products'' \<noteq> map_of ex_C ''products''
   \<and> map_of ex_new_rxn2 ''conditions'' = None
   \<and> map_of ex_P2 ''conditions'' = Some [Ent [(''text'', VStr ''rt'')]]"
  by code_simp

lemma ex_back_out_rxn_run:
  "back_out_rxn ex_MolFromSmiles ex_HasSubstructMatch ex_results [] ex_P
      [\<lparr>reactions = [ex_C, ex_C2], page = None\<rparr>] = Inr ex_final"
  by code_simp

theorem back_out_rxn_emits_per_match_witness:
  "back_out_rxn ex_MolFromSmiles ex_HasSubstructMatch ex_results [] ex_P
      [\<lparr>reactions = [ex_C, ex_C2], page = None\<rparr>] = Inr ex_final
   \<and> product_smiles ex_P = Inr (Some (VStr ''*C'')) \<and> CHR ''*'' \<in> set ''*C''
   \<and> filter (candidate_matches ex_MolFromSmiles ex_HasSubstructMatch ''*C'') (all_reactions ex_results)
       = [ex_C, ex_C2]
   \<and> all_reactions ex_final = [ex_C, ex_C2] @ replicate 2 ex_new_rxn"
proof -
  have 1: "product_smiles ex_P = Inr (Some (VStr ''*C''))" by code_simp
  have 2: "CHR ''*'' \<in> set ''*C''" by simp
  have 3: "[\<lparr>reactions = [ex_C, ex_C2], page = None\<rparr>] \<noteq> []" by simp
  have 4: "filter (candidate_matches ex_MolFromSmiles ex_HasSubstructMatch ''*C'') (all_reactions ex_results)
       = [ex_C, ex_C2]" by code_simp
  have 5: "make_new_rxn [] ex_P = Inr ex_new_rxn" by code_simp
  from back_out_rxn_emits_per_match [OF ex_back_out_rxn_run 1 2 3] 4 5
  have "all_reactions ex_final = [ex_C, ex_C2] @ replicate 2 ex_new_rxn"
    by (auto simp: all_reactions_def numeral_2_eq_2)
  with ex_back_out_rxn_run 1 2 4 show ?thesis by blast
qed

theorem backout_first_match_counterexample:
  "backout ex_MolFromSmiles ex_HasSubstructMatch ex_results [ex_coref]
     = Inr [\<lparr>reactions = [ex_C, ex_C2, ex_new_rxn, ex_new_rxn], page = None\<rparr>]
   \<and> ex_HasSubstructMatch ''CC'' ''CC''
   \<and> length (filter (\<lambda>rxn. rxn = ex_new_rxn) [ex_C, ex_C2, ex_new_rxn, ex_new_rxn]) = 2"
  by code_simp

text \<open>
  Claim C8. A coreference record whose molecule list is empty makes \<open>clean_corefs\<close>, and
  with it \<open>backout\<close>, raise \<open>IndexError\<close>.
\<close>

theorem backout_empty_mol_bboxes_raises:
  "backout ex_MolFromSmiles ex_HasSubstructMatch [\<lparr>reactions = [], page = None\<rparr>] [ex_empty_coref]
     = Inl IndexError"
  by code_simp

lemma ex_parse_assignments:
  "parse_assignments [''3a, R = Cl'', ''3b, R = Br''] = [(''3a'', ''R''), (''3b'', ''R'')]"
  by code_simp

text \<open>
  Claim C6, as amended. For the identifier texts \<open>3a, R = Cl\<close> and \<open>3b, R = Br\<close> the
  parser returns the mapping of \<open>3a\<close> to \<open>R\<close> and of \<open>3b\<close> to \<open>R\<close>: the group is the
  token that follows the label.
\<close>

theorem parse_assignments_scenario_b:
  "parse_assignments [''3a, R = Cl'', ''3b, R = Br''] = [(''3a'', ''R''), (''3b'', ''R'')]
   \<and> clean_corefs [[(''mol_bboxes'', CList [[]]),
                      (''idt_bboxes'', CList [[(''text'', VStr ''3a, R = Cl'')], [(''text'', VStr ''3b, R = Br'')]]),
                      (''bboxes'', CNone)]] 0
       = Inr (Some ([], [(''3a'', ''R''), (''3b'', ''R'')], CNone))"
  by code_simp

theorem parse_assignments_scenario_b_counterexample:
  "map_of (parse_assignments [''3a, R = Cl'', ''3b, R = Br'']) ''3a'' \<noteq> Some ''Cl''
   \<and> map_of (parse_assignments [''3a, R = Cl'', ''3b, R = Br'']) ''3b'' \<noteq> Some ''Br''"
  by (simp add: ex_parse_assignments)

section \<open>Proofs: graph substitution and table expansion\<close>

lemma foldE_inv:
  assumes step: "\<And>a s t. a \<in> set xs \<Longrightarrow> I s \<Longrightarrow> f a s = Inr t \<Longrightarrow> I t"
    and init: "I s" and run: "foldE f xs s = Inr s'"
  shows "I s'"
proof -
  have "I s \<longrightarrow> I s'"
    by (rule foldE_rel [where R = "\<lambda>s t. I s \<longrightarrow> I t", OF _ _ _ run]) (auto intro: step)
  with init show ?thesis by simp
qed

lemma keeps_refl: "keeps h h"
  by (simp add: keeps_def)

lemma keeps_trans: "keeps a b \<Longrightarrow> keeps b c \<Longrightarrow> keeps a c"
  by (auto simp: keeps_def)

lemma keeps_append: "keeps h (h @ ext)"
  by (simp add: keeps_def nth_append)

lemma keeps_get_symbols: "keeps h h' \<Longrightarrow> get_symbols h a = Inr ss \<Longrightarrow> get_symbols h' a = Inr ss"
  by (auto simp: keeps_def get_symbols_def split: if_splits)

lemma keeps_get_coords: "keeps h h' \<Longrightarrow> get_coords h a = Inr ss \<Longrightarrow> get_coords h' a = Inr ss"
  by (auto simp: keeps_def get_coords_def split: if_splits)

lemma keeps_get_rows: "keeps h h' \<Longrightarrow> get_rows h a = Inr ss \<Longrightarrow> get_rows h' a = Inr ss"
  by (auto simp: keeps_def get_rows_def split: if_splits)

lemma keeps_get_row: "keeps h h' \<Longrightarrow> get_row h a = Inr ss \<Longrightarrow> get_row h' a = Inr ss"
  by (auto simp: keeps_def get_row_def split: if_splits)

lemma keeps_mapE_get_row: "keeps h h' \<Longrightarrow> mapE (get_row h) rs = Inr e \<Longrightarrow> mapE (get_row h') rs = Inr e"
proof (induction rs arbitrary: e)
  case Nil
  then show ?case by simp
next
  case (Cons r rs)
  from Cons.prems(2) obtain x xs where x: "get_row h r = Inr x" and xs: "mapE (get_row h) rs = Inr xs"
    and e: "e = x # xs" by (auto simp: bnd_Inr)
  from keeps_get_row [OF Cons.prems(1) x] Cons.IH [OF Cons.prems(1) xs] e show ?case
    by (simp add: bnd_def)
qed

lemma keeps_graph_of: 
  assumes "keeps h h'" "graph_of h g = Inr gv"
  shows "graph_of h' g = Inr gv"
proof -
  from assms(2) obtain cs ss rs e where 1: "get_coords h (r_coords g) = Inr cs"
    and 2: "get_symbols h (r_symbols g) = Inr ss" and 3: "get_rows h (r_edges g) = Inr rs"
    and 4: "mapE (get_row h) rs = Inr e"
    and gv: "gv = \<lparr>image = r_image g, coords = cs, symbols = ss, edges = e, key = r_key g\<rparr>"
    by (auto simp: graph_of_def bnd_Inr)
  from keeps_get_coords [OF assms(1) 1] keeps_get_symbols [OF assms(1) 2]
    keeps_get_rows [OF assms(1) 3] keeps_mapE_get_row [OF assms(1) 4] gv
  show ?thesis by (simp add: graph_of_def bnd_def)
qed

text \<open>Copies are allocated above the old store.\<close>

lemma copy_graph_props:
  assumes "copy_graph h g = Inr (h', c)"
  shows "\<exists>cs ss rs. get_coords h (r_coords g) = Inr cs \<and> get_symbols h (r_symbols g) = Inr ss
           \<and> get_rows h (r_edges g) = Inr rs
           \<and> h' = h @ [OCoords cs, OSymbols ss, ORows rs]
           \<and> c = \<lparr>r_image = r_image g, r_coords = length h, r_symbols = Suc (length h),
                   r_edges = Suc (Suc (length h)), r_key = r_key g\<rparr>"
  using assms by (auto simp: copy_graph_def bnd_Inr alloc_def)

lemma copy_graphs_acc:
  "foldE (\<lambda>g (h', graph_copy). bnd (copy_graph h' g) (\<lambda>(h'', c). Inr (h'', graph_copy @ [c])))
         graphs (h0, acc) = Inr (h1, gc)
   \<Longrightarrow> keeps h h0 \<Longrightarrow> \<forall>c \<in> set acc. r_symbols c < length h0
   \<Longrightarrow> \<exists>new. gc = acc @ new \<and> length new = length graphs \<and> keeps h0 h1
         \<and> distinct (map r_symbols new)
         \<and> (\<forall>i < length graphs.
               length h0 \<le> r_symbols (new ! i) \<and> r_symbols (new ! i) < length h1
               \<and> r_key (new ! i) = r_key (graphs ! i)
               \<and> (\<forall>ss. get_symbols h (r_symbols (graphs ! i)) = Inr ss
                     \<longrightarrow> get_symbols h1 (r_symbols (new ! i)) = Inr ss))"
proof (induction graphs arbitrary: h0 acc)
  case Nil
  then show ?case by (simp add: keeps_refl)
next
  case (Cons g graphs)
  from Cons.prems(1) obtain h' c where cg: "copy_graph h0 g = Inr (h', c)"
    and rest: "foldE (\<lambda>g (h', graph_copy). bnd (copy_graph h' g) (\<lambda>(h'', c). Inr (h'', graph_copy @ [c])))
         graphs (h', acc @ [c]) = Inr (h1, gc)"
    by (auto simp: bnd_Inr)
  from copy_graph_props [OF cg] obtain cs ss rs where ss: "get_symbols h0 (r_symbols g) = Inr ss"
    and h': "h' = h0 @ [OCoords cs, OSymbols ss, ORows rs]"
    and c: "c = \<lparr>r_image = r_image g, r_coords = length h0, r_symbols = Suc (length h0),
                   r_edges = Suc (Suc (length h0)), r_key = r_key g\<rparr>"
    by blast
  have k01: "keeps h0 h'" using h' by (simp add: keeps_append)
  have k: "keeps h h'" using Cons.prems(2) k01 by (rule keeps_trans)
  have accs: "\<forall>c \<in> set (acc @ [c]). r_symbols c < length h'"
    using Cons.prems(3) h' c by auto
  from Cons.IH [OF rest k accs] obtain new where new: "gc = (acc @ [c]) @ new"
    "length new = length graphs" "keeps h' h1" "distinct (map r_symbols new)"
    and each: "\<And>i. i < length graphs \<Longrightarrow>
               length h' \<le> r_symbols (new ! i) \<and> r_symbols (new ! i) < length h1
               \<and> r_key (new ! i) = r_key (graphs ! i)
               \<and> (\<forall>ss. get_symbols h (r_symbols (graphs ! i)) = Inr ss
                     \<longrightarrow> get_symbols h1 (r_symbols (new ! i)) = Inr ss)"
    by blast
  have k1: "keeps h0 h1" using k01 new(3) by (rule keeps_trans)
  have csym: "get_symbols h' (r_symbols c) = Inr ss" using h' c by (simp add: get_symbols_def nth_append)
  then have csym1: "get_symbols h1 (r_symbols c) = Inr ss" using new(3) by (rule keeps_get_symbols [rotated])
  have clt: "r_symbols c < length h1" using csym1 by (auto simp: get_symbols_def split: if_splits)
  have fresh: "r_symbols c \<notin> set (map r_symbols new)"
  proof
    assume "r_symbols c \<in> set (map r_symbols new)"
    then obtain i where "i < length new" "r_symbols (new ! i) = r_symbols c"
      by (auto simp: in_set_conv_nth)
    with each [of i] new(2) h' c show False by simp
  qed
  have orig_ss: "\<forall>ss'. get_symbols h (r_symbols g) = Inr ss' \<longrightarrow> get_symbols h1 (r_symbols c) = Inr ss'"
    using keeps_get_symbols [OF Cons.prems(2)] ss csym1 by fastforce
  have "\<forall>i < length (g # graphs).
               length h0 \<le> r_symbols ((c # new) ! i) \<and> r_symbols ((c # new) ! i) < length h1
               \<and> r_key ((c # new) ! i) = r_key ((g # graphs) ! i)
               \<and> (\<forall>ss. get_symbols h (r_symbols ((g # graphs) ! i)) = Inr ss
                     \<longrightarrow> get_symbols h1 (r_symbols ((c # new) ! i)) = Inr ss)"
  proof (intro allI impI)
    fix i assume i: "i < length (g # graphs)"
    show "length h0 \<le> r_symbols ((c # new) ! i) \<and> r_symbols ((c # new) ! i) < length h1
               \<and> r_key ((c # new) ! i) = r_key ((g # graphs) ! i)
               \<and> (\<forall>ss. get_symbols h (r_symbols ((g # graphs) ! i)) = Inr ss
                     \<longrightarrow> get_symbols h1 (r_symbols ((c # new) ! i)) = Inr ss)"
    proof (cases i)
      case 0
      then show ?thesis using c clt orig_ss by simp
    next
      case (Suc n)
      then have "n < length graphs" using i by simp
      from each [OF this] h' Suc show ?thesis by simp
    qed
  qed
  moreover have "gc = acc @ (c # new)" using new(1) by simp
  moreover have "length (c # new) = length (g # graphs)" using new(2) by simp
  moreover have "distinct (map r_symbols (c # new))" using new(4) fresh by simp
  ultimately show ?case using k1 by blast
qed

lemma copy_graphs_ok:
  assumes "copy_graphs h graphs = Inr (h1, gc)"
  shows "copies_ok h graphs h1 gc"
proof -
  from copy_graphs_acc [OF assms [unfolded copy_graphs_def] keeps_refl]
  show ?thesis by (auto simp: copies_ok_def)
qed

lemma write_symbol_Inr:
  assumes "write_symbol gc graph_idx atom_idx v heap = Inr heap'"
  obtains ss0 where "graph_idx < length gc" "get_symbols heap (r_symbols (gc ! graph_idx)) = Inr ss0"
    "atom_idx < length ss0"
    "heap' = heap[r_symbols (gc ! graph_idx) := OSymbols (ss0[atom_idx := v])]"
  using assms by (auto simp: write_symbol_def Let_def bnd_Inr split: if_splits)

lemma relabel_atoms_inv:
  assumes run: "relabel_atoms gc relevant_locs mappings h1 = Inr h2"
    and init: "I h1"
    and step: "\<And>graph_idx located atm atom_idx v heap heap'.
        (graph_idx, located) \<in> set relevant_locs \<Longrightarrow> (atm, atom_idx) \<in> set located \<Longrightarrow>
        map_of mappings atm = Some v \<Longrightarrow> I heap \<Longrightarrow>
        write_symbol gc graph_idx atom_idx v heap = Inr heap' \<Longrightarrow> I heap'"
  shows "I h2"
proof (rule foldE_inv [where I = I, OF _ init run [unfolded relabel_atoms_def]])
  fix a s t
  assume a: "a \<in> set relevant_locs" and s: "I s"
    and f: "(case a of (graph_idx, located) \<Rightarrow>
              foldE (\<lambda>(atm, atom_idx) h'.
                       case map_of mappings atm of
                         None \<Rightarrow> Inr h'
                       | Some v \<Rightarrow> write_symbol gc graph_idx atom_idx v h')
                    located) s = Inr t"
  obtain graph_idx located where gl: "a = (graph_idx, located)" by (cases a)
  from f gl have inner: "foldE (\<lambda>(atm, atom_idx) h'.
                       case map_of mappings atm of
                         None \<Rightarrow> Inr h'
                       | Some v \<Rightarrow> write_symbol gc graph_idx atom_idx v h')
                    located s = Inr t" by simp
  show "I t"
  proof (rule foldE_inv [where I = I, OF _ s inner])
    fix b u w
    assume b: "b \<in> set located" and u: "I u"
      and g: "(case b of (atm, atom_idx) \<Rightarrow> \<lambda>h'.
                       case map_of mappings atm of
                         None \<Rightarrow> Inr h'
                       | Some v \<Rightarrow> write_symbol gc graph_idx atom_idx v h') u = Inr w"
    obtain atm atom_idx where aa: "b = (atm, atom_idx)" by (cases b)
    show "I w"
    proof (cases "map_of mappings atm")
      case None
      then show ?thesis using g aa u by simp
    next
      case (Some v)
      then have "write_symbol gc graph_idx atom_idx v u = Inr w" using g aa by simp
      from step [OF _ _ Some u this] a gl b aa show ?thesis by simp
    qed
  qed
qed

lemma relabel_atoms_keeps:
  assumes ok: "copies_ok h graphs h1 gc"
    and run: "relabel_atoms gc relevant_locs mappings h1 = Inr h2"
  shows "keeps h h2"
proof (rule relabel_atoms_inv [OF run, where I = "keeps h"])
  show "keeps h h1" using ok by (simp add: copies_ok_def)
next
  fix graph_idx atom_idx v heap heap'
  assume k: "keeps h heap" and w: "write_symbol gc graph_idx atom_idx v heap = Inr heap'"
  from w obtain ss0 where gi: "graph_idx < length gc"
    and heap': "heap' = heap[r_symbols (gc ! graph_idx) := OSymbols (ss0[atom_idx := v])]"
    by (rule write_symbol_Inr)
  have "length h \<le> r_symbols (gc ! graph_idx)" using ok gi by (simp add: copies_ok_def)
  then show "keeps h heap'" using k heap' by (auto simp: keeps_def)
qed

lemma relabel_atoms_symbols:
  assumes ok: "copies_ok h graphs h1 gc"
    and run: "relabel_atoms gc relevant_locs mappings h1 = Inr h2"
    and i: "i < length graphs"
    and ss: "get_symbols h (r_symbols (graphs ! i)) = Inr ss"
  shows "\<exists>ss'. get_symbols h2 (r_symbols (gc ! i)) = Inr ss' \<and> length ss' = length ss
           \<and> (\<forall>j < length ss. \<not> located_mapped relevant_locs mappings i j \<longrightarrow> ss' ! j = ss ! j)"
    (is "?J h2")
proof (rule relabel_atoms_inv [OF run, where I = ?J])
  show "?J h1" using ok i ss by (auto simp: copies_ok_def)
next
  fix graph_idx located atm atom_idx v heap heap'
  assume loc: "(graph_idx, located) \<in> set relevant_locs" "(atm, atom_idx) \<in> set located"
    "map_of mappings atm = Some v"
    and J: "?J heap" and w: "write_symbol gc graph_idx atom_idx v heap = Inr heap'"
  from J obtain ss' where ss': "get_symbols heap (r_symbols (gc ! i)) = Inr ss'"
    "length ss' = length ss"
    "\<forall>j < length ss. \<not> located_mapped relevant_locs mappings i j \<longrightarrow> ss' ! j = ss ! j"
    by blast
  from w obtain ss0 where gi: "graph_idx < length gc"
    and ss0: "get_symbols heap (r_symbols (gc ! graph_idx)) = Inr ss0"
    and ai: "atom_idx < length ss0"
    and heap': "heap' = heap[r_symbols (gc ! graph_idx) := OSymbols (ss0[atom_idx := v])]"
    by (rule write_symbol_Inr)
  have ilen: "i < length gc" using ok i by (simp add: copies_ok_def)
  have lt: "r_symbols (gc ! i) < length heap"
    using ss'(1) by (auto simp: get_symbols_def split: if_splits)
  show "?J heap'"
  proof (cases "graph_idx = i")
    case True
    then have eq: "ss0 = ss'" using ss0 ss'(1) by simp
    have "get_symbols heap' (r_symbols (gc ! i)) = Inr (ss'[atom_idx := v])"
      using heap' True eq lt by (simp add: get_symbols_def)
    moreover have "\<forall>j < length ss. \<not> located_mapped relevant_locs mappings i j
                     \<longrightarrow> (ss'[atom_idx := v]) ! j = ss ! j"
    proof (intro allI impI)
      fix j assume j: "j < length ss" and nl: "\<not> located_mapped relevant_locs mappings i j"
      have "atom_idx \<noteq> j"
      proof
        assume "atom_idx = j"
        then have "located_mapped relevant_locs mappings i j"
          unfolding located_mapped_def using loc True by fastforce
        with nl show False by simp
      qed
      then show "(ss'[atom_idx := v]) ! j = ss ! j" using ss'(3) j nl by simp
    qed
    ultimately show ?thesis using ss'(2) by simp
  next
    case False
    have "distinct (map r_symbols gc)" using ok by (simp add: copies_ok_def)
    then have "r_symbols (gc ! graph_idx) \<noteq> r_symbols (gc ! i)"
      using False gi ilen by (simp add: distinct_conv_nth)
    then have "get_symbols heap' (r_symbols (gc ! i)) = Inr ss'"
      using heap' ss'(1) by (auto simp: get_symbols_def split: if_splits)
    then show ?thesis using ss'(2,3) by blast
  qed
qed

lemma get_replaced_reaction_Inr:
  assumes "get_replaced_reaction conv h orig graphs relevant_locs mappings = Inr (h', orig', rc)"
  obtains h1 gc rc0 where "copy_graphs h graphs = Inr (h1, gc)"
    "relabel_atoms gc relevant_locs mappings h1 = Inr h'"
    "relabel_graphs h graphs relevant_locs mappings = Inr (h', gc)"
    "copy_reaction orig = Inr rc0"
    "foldE (\<lambda>g oc. bnd (graph_of h' g) (\<lambda>gv. set_smiles (r_key g) (conv gv) oc)) gc (orig, rc0)
       = Inr (orig', rc)"
  using assms
  by (auto simp: get_replaced_reaction_def relabel_graphs_def bnd_Inr)

text \<open>
  Claim C7. A call of \<open>get_replaced_reaction\<close> that returns leaves every object of the
  store it was given as it was, so every input graph denotes the same symbols,
  coordinates and edges afterwards; and in the copy of each graph, every atom that is
  not a located position with a symbol among the keys of the mapping keeps its label.
\<close>

theorem get_replaced_reaction_frame:
  assumes "get_replaced_reaction convert_graph_to_output h orig_reaction graphs relevant_locs mappings
             = Inr (h', orig', reaction_copy)"
  shows "(\<forall>a < length h. h' ! a = h ! a)
         \<and> (\<forall>g \<in> set graphs. \<forall>gv. graph_of h g = Inr gv \<longrightarrow> graph_of h' g = Inr gv)
         \<and> (\<exists>graph_copy. relabel_graphs h graphs relevant_locs mappings = Inr (h', graph_copy)
               \<and> length graph_copy = length graphs
               \<and> (\<forall>i < length graphs. \<forall>ss. get_symbols h (r_symbols (graphs ! i)) = Inr ss \<longrightarrow>
                      (\<exists>ss'. get_symbols h' (r_symbols (graph_copy ! i)) = Inr ss'
                          \<and> length ss' = length ss
                          \<and> (\<forall>j < length ss. \<not> located_mapped relevant_locs mappings i j
                                \<longrightarrow> ss' ! j = ss ! j))))"
proof -
  from assms obtain h1 gc where cg: "copy_graphs h graphs = Inr (h1, gc)"
    and ra: "relabel_atoms gc relevant_locs mappings h1 = Inr h'"
    and rg: "relabel_graphs h graphs relevant_locs mappings = Inr (h', gc)"
    by (rule get_replaced_reaction_Inr)
  note ok = copy_graphs_ok [OF cg]
  have k: "keeps h h'" using ok ra by (rule relabel_atoms_keeps)
  have 1: "\<forall>a < length h. h' ! a = h ! a" using k by (simp add: keeps_def)
  have 2: "\<forall>g \<in> set graphs. \<forall>gv. graph_of h g = Inr gv \<longrightarrow> graph_of h' g = Inr gv"
    using keeps_graph_of [OF k] by blast
  have 3: "length gc = length graphs" using ok by (simp add: copies_ok_def)
  have 4: "\<forall>i < length graphs. \<forall>ss. get_symbols h (r_symbols (graphs ! i)) = Inr ss \<longrightarrow>
                      (\<exists>ss'. get_symbols h' (r_symbols (gc ! i)) = Inr ss'
                          \<and> length ss' = length ss
                          \<and> (\<forall>j < length ss. \<not> located_mapped relevant_locs mappings i j
                                \<longrightarrow> ss' ! j = ss ! j))"
    using relabel_atoms_symbols [OF ok ra] by blast
  from 1 2 rg 3 4 show ?thesis by blast
qed

lemma mapE_id:
  "(\<And>a b. a \<in> set xs \<Longrightarrow> f a = Inr b \<Longrightarrow> b = a) \<Longrightarrow> mapE f xs = Inr ys \<Longrightarrow> ys = xs"
proof (induction xs arbitrary: ys)
  case Nil
  then show ?case by simp
next
  case (Cons a xs)
  from Cons.prems(2) obtain b bs where b: "f a = Inr b" and bs: "mapE f xs = Inr bs" and ys: "ys = b # bs"
    by (auto simp: bnd_Inr)
  have "b = a" using Cons.prems(1) [of a b] b by simp
  moreover have "bs = xs" using Cons.IH [OF _ bs] Cons.prems(1) by simp
  ultimately show ?case using ys by simp
qed

lemma append_copy_id: "append_copy e = Inr e' \<Longrightarrow> e' = e"
  by (auto simp: append_copy_def bnd_Inr split: item.splits)

lemma copy_item_id: "copy_item e = Inr e' \<Longrightarrow> e' = e"
  by (auto simp: copy_item_def bnd_Inr split: item.splits dest: append_copy_id mapE_id [rotated])

lemma copy_reaction_id:
  assumes "copy_reaction r = Inr rc"
  shows "rc = r"
proof (rule mapE_id [OF _ assms [unfolded copy_reaction_def]])
  fix a b
  assume "(case a of (k, v) \<Rightarrow> bnd (mapE copy_item v) (\<lambda>v'. Inr (k, v'))) = Inr b"
  then show "b = a"
    by (cases a) (auto simp: bnd_Inr dest: mapE_id [rotated] copy_item_id)
qed

lemma collect_mols_keys:
  "collect_mols k i elts = Inr gs \<Longrightarrow> g \<in> set gs \<Longrightarrow>
   fst (key g) = k \<and> i \<le> snd (key g) \<and> snd (key g) - i < length elts
   \<and> (\<exists>d. elts ! (snd (key g) - i) = Ent d \<and> is_mol d)"
proof (induction elts arbitrary: i gs)
  case Nil
  then show ?case by simp
next
  case (Cons elt elts)
  from Cons.prems(1) obtain og gs' where og: "init_graph k i elt = Inr og"
    and gs': "collect_mols k (Suc i) elts = Inr gs'"
    and gs: "gs = (case og of None \<Rightarrow> gs' | Some g' \<Rightarrow> g' # gs')"
    by (auto simp: bnd_Inr)
  show ?case
  proof (cases "g \<in> set gs'")
    case True
    from Cons.IH [OF gs' True] obtain d where k: "fst (key g) = k" and le: "Suc i \<le> snd (key g)"
      and lt: "snd (key g) - Suc i < length elts"
      and d: "elts ! (snd (key g) - Suc i) = Ent d" "is_mol d" by blast
    from le have "snd (key g) - i = Suc (snd (key g) - Suc i)" by simp
    then have "(elt # elts) ! (snd (key g) - i) = elts ! (snd (key g) - Suc i)" by simp
    with k le lt d show ?thesis by auto
  next
    case False
    with Cons.prems(2) gs have "og = Some g" by (auto split: option.splits)
    with og show ?thesis
      by (auto simp: init_graph_def bnd_Inr is_mol_def getitem_def
          split: item.splits if_splits option.splits)
  qed
qed

lemma collect_reaction_keys:
  "collect_reaction r = Inr gs \<Longrightarrow> distinct (map fst r) \<Longrightarrow> g \<in> set gs \<Longrightarrow> mol_at r (key g)"
proof (induction r arbitrary: gs rule: collect_reaction.induct)
  case 1
  then show ?case by simp
next
  case (2 k molecules rest)
  from "2.prems"(1) obtain gs1 gs2 where gs1: "collect_mols k 0 molecules = Inr gs1"
    and gs2: "collect_reaction rest = Inr gs2" and gs: "gs = gs1 @ gs2"
    by (auto simp: bnd_Inr)
  from "2.prems"(3) gs consider "g \<in> set gs1" | "g \<in> set gs2" by auto
  then show ?case
  proof cases
    case 1
    from collect_mols_keys [OF gs1 1] show ?thesis by (auto simp: mol_at_def)
  next
    case 2
    have "mol_at rest (key g)" using "2.IH" [OF gs2 _ 2] "2.prems"(2) by simp
    then obtain lst d where m: "map_of rest (fst (key g)) = Some lst"
      and r: "snd (key g) < length lst" "lst ! snd (key g) = Ent d" "is_mol d"
      by (auto simp: mol_at_def)
    from m have "fst (key g) \<in> fst ` set rest" by (metis map_of_SomeD fst_conv image_eqI)
    with "2.prems"(2) have "fst (key g) \<noteq> k" by auto
    with m r show ?thesis by (auto simp: mol_at_def)
  qed
qed

lemma fill_graph_key: "fill_graph mol g = Inr g' \<Longrightarrow> key g' = key g"
  by (auto simp: fill_graph_def Let_def bnd_Inr)

lemma fill_graphs_keys: "fill_graphs mols gs = Inr gs' \<Longrightarrow> map key gs' = map key gs"
proof (induction mols arbitrary: gs gs')
  case Nil
  then show ?case by simp
next
  case (Cons mol mols)
  show ?case
  proof (cases gs)
    case Nil
    then show ?thesis using Cons.prems by simp
  next
    case (Cons r rs)
    from Cons.prems Cons obtain h hs where h: "fill_graph mol r = Inr h"
      and hs: "fill_graphs mols rs = Inr hs" and gs': "gs' = h # hs"
      by (auto simp: bnd_Inr)
    from fill_graph_key [OF h] Cons.IH [OF hs] gs' Cons show ?thesis by simp
  qed
qed

lemma get_atoms_and_bonds_keys:
  assumes "get_atoms_and_bonds P r = Inr gs" "distinct (map fst r)" "g \<in> set gs"
  shows "mol_at r (key g)"
proof -
  from assms(1) obtain gs0 where c: "collect_reaction r = Inr gs0"
    and f: "fill_graphs (P (map image gs0)) gs0 = Inr gs"
    by (auto simp: get_atoms_and_bonds_def bnd_Inr)
  from fill_graphs_keys [OF f] assms(3) have "key g \<in> key ` set gs0"
    by (metis image_eqI set_map)
  then obtain g0 where "g0 \<in> set gs0" "key g0 = key g" by auto
  with collect_reaction_keys [OF c assms(2)] show ?thesis by metis
qed

lemma alloc_graph_key: "alloc_graph h g = (h', r) \<Longrightarrow> r_key r = key g"
  by (auto simp: alloc_graph_def Let_def split: prod.splits)

lemma alloc_graphs_keys_acc:
  "fold (\<lambda>g (h', rs). case alloc_graph h' g of (h'', r) \<Rightarrow> (h'', rs @ [r])) gs (h, acc) = (h1, grefs)
   \<Longrightarrow> map r_key grefs = map r_key acc @ map key gs"
proof (induction gs arbitrary: h acc)
  case Nil
  then show ?case by simp
next
  case (Cons g gs)
  obtain h'' r where a: "alloc_graph h g = (h'', r)" by (cases "alloc_graph h g")
  with Cons.prems have "fold (\<lambda>g (h', rs). case alloc_graph h' g of (h'', r) \<Rightarrow> (h'', rs @ [r])) gs (h'', acc @ [r]) = (h1, grefs)"
    by simp
  from Cons.IH [OF this] alloc_graph_key [OF a] show ?case by simp
qed

lemma alloc_graphs_keys: "alloc_graphs h gs = (h1, grefs) \<Longrightarrow> map r_key grefs = map key gs"
  unfolding alloc_graphs_def by (drule alloc_graphs_keys_acc) simp

lemma is_mol_update_smiles: "is_mol (AList.update ''smiles'' s d) = is_mol d"
  by (simp add: is_mol_def update_conv')

lemma mol_at_set_item_smiles:
  assumes "mol_at c (k, i)" "mol_at c ky"
  shows "mol_at (set_item_smiles k i s c) ky"
proof -
  from assms(1) obtain lst d where lst: "map_of c k = Some lst" and i: "i < length lst"
    and d: "lst ! i = Ent d" "is_mol d" by (auto simp: mol_at_def)
  let ?d' = "AList.update ''smiles'' s d"
  let ?lst' = "lst[i := Ent ?d']"
  have eq: "set_item_smiles k i s c = AList.update k ?lst' c"
    using lst d by (simp add: set_item_smiles_def)
  from assms(2) obtain l2 d2 where l2: "map_of c (fst ky) = Some l2" and i2: "snd ky < length l2"
    and d2: "l2 ! snd ky = Ent d2" "is_mol d2" by (auto simp: mol_at_def)
  show ?thesis
  proof (cases "fst ky = k")
    case True
    then have same: "l2 = lst" using l2 lst by simp
    have m: "map_of (AList.update k ?lst' c) (fst ky) = Some ?lst'"
      using True by (simp add: update_conv')
    have len: "snd ky < length ?lst'" using i2 same by simp
    have "\<exists>d3. ?lst' ! snd ky = Ent d3 \<and> is_mol d3"
    proof (cases "snd ky = i")
      case True
      then show ?thesis using i d(2) by (simp add: is_mol_update_smiles)
    next
      case False
      then show ?thesis using d2 same by simp
    qed
    with m len show ?thesis unfolding eq mol_at_def by blast
  next
    case False
    then have "map_of (AList.update k ?lst' c) (fst ky) = Some l2"
      using l2 by (simp add: update_conv')
    with i2 d2 show ?thesis unfolding eq mol_at_def by blast
  qed
qed

lemma set_smiles_mol:
  assumes "set_smiles (k, i) s (orig, c) = Inr (orig', c')" "mol_at c (k, i)"
  shows "orig' = orig \<and> c' = set_item_smiles k i s c"
proof -
  from assms(2) obtain lst d where lst: "map_of c k = Some lst" and i: "i < length lst"
    and d: "lst ! i = Ent d" "is_mol d" by (auto simp: mol_at_def)
  then show ?thesis using assms(1) by (simp add: set_smiles_def getitem_def bnd_def)
qed

lemma set_smiles_loop_frame:
  assumes run: "foldE (\<lambda>g oc. bnd (graph_of h g) (\<lambda>gv. set_smiles (r_key g) (conv gv) oc)) gc (orig, c)
                  = Inr (orig', c')"
    and mols: "\<forall>g \<in> set gc. mol_at c (r_key g)"
  shows "orig' = orig"
proof -
  let ?I = "\<lambda>oc. fst oc = orig \<and> (\<forall>g \<in> set gc. mol_at (snd oc) (r_key g))"
  have "?I (orig', c')"
  proof (rule foldE_inv [where I = ?I, OF _ _ run])
    show "?I (orig, c)" using mols by simp
  next
    fix g oc oc'
    assume g: "g \<in> set gc" and I: "?I oc"
      and step: "bnd (graph_of h g) (\<lambda>gv. set_smiles (r_key g) (conv gv) oc) = Inr oc'"
    obtain o1 c1 where oc: "oc = (o1, c1)" by (cases oc)
    obtain o2 c2 where oc': "oc' = (o2, c2)" by (cases oc')
    obtain k i where ki: "r_key g = (k, i)" by (cases "r_key g")
    from step oc oc' ki obtain gv where s: "set_smiles (k, i) (conv gv) (o1, c1) = Inr (o2, c2)"
      by (auto simp: bnd_Inr)
    have m: "mol_at c1 (k, i)" using I g oc ki by force
    from set_smiles_mol [OF s m] have o2: "o2 = o1" and c2: "c2 = set_item_smiles k i (conv gv) c1"
      by auto
    have "\<forall>g' \<in> set gc. mol_at c2 (r_key g')"
      using I oc c2 mol_at_set_item_smiles [OF m] by simp
    with o2 I oc oc' show "?I oc'" by simp
  qed
  then show ?thesis by simp
qed

lemma get_replaced_reaction_orig:
  assumes run: "get_replaced_reaction conv h orig graphs relevant_locs mappings = Inr (h', orig', rc)"
    and mols: "\<forall>g \<in> set graphs. mol_at orig (r_key g)"
  shows "orig' = orig"
proof -
  from run obtain h1 gc rc0 where cg: "copy_graphs h graphs = Inr (h1, gc)"
    and cr: "copy_reaction orig = Inr rc0"
    and loop: "foldE (\<lambda>g oc. bnd (graph_of h' g) (\<lambda>gv. set_smiles (r_key g) (conv gv) oc)) gc (orig, rc0)
       = Inr (orig', rc)"
    by (rule get_replaced_reaction_Inr)
  have rc0: "rc0 = orig" using cr by (rule copy_reaction_id)
  have keys: "\<forall>g \<in> set gc. mol_at orig (r_key g)"
  proof
    fix g assume "g \<in> set gc"
    then obtain i where i: "i < length gc" "g = gc ! i" by (auto simp: in_set_conv_nth)
    with copy_graphs_ok [OF cg] have "i < length graphs" "r_key g = r_key (graphs ! i)"
      by (auto simp: copies_ok_def)
    with mols show "mol_at orig (r_key g)" by simp
  qed
  from set_smiles_loop_frame [OF loop [unfolded rc0] keys] show ?thesis .
qed

lemma process_row_step:
  assumes run: "process_row conv cols graphs relevant_locs row (h, orig, others, cte)
                  = Inr (h', orig', others', cte')"
    and mols: "\<forall>g \<in> set graphs. mol_at orig (r_key g)"
    and cs: "map_of orig ''conditions'' = Some cs"
  shows "orig' = orig
         \<and> (if row_replaced cols cs row
             then (\<exists>new. others' = others @ [new]) \<and> cte' = cte
             else others' = others \<and> cte' = cte @ [row_conditions cols cs row])"
proof -
  obtain rg ec rep where sr: "scan_row cols cs row = (rg, ec, rep)" by (cases "scan_row cols cs row")
  have gi: "getitem orig ''conditions'' = Inr cs" using cs by (simp add: getitem_def)
  from run gi sr obtain h1 o1 rc where g: "get_replaced_reaction conv h orig graphs relevant_locs rg = Inr (h1, o1, rc)"
    and rest: "(if rep
        then bnd (getitem rc ''reactants'') (\<lambda>reactants.
             bnd (getitem rc ''products'') (\<lambda>products.
             Inr (h1, o1,
                  others @ [[(''reactants'', reactants), (''conditions'', ec),
                             (''products'', products)]],
                  cte)))
        else Inr (h1, o1, others, cte @ [ec])) = Inr (h', orig', others', cte')"
    by (auto simp: process_row_def bnd_Inr)
  have o1: "o1 = orig" using g mols by (rule get_replaced_reaction_orig)
  show ?thesis
  proof (cases rep)
    case True
    with rest o1 sr show ?thesis
      by (auto simp: bnd_Inr row_replaced_def row_conditions_def)
  next
    case False
    with rest o1 sr show ?thesis
      by (auto simp: row_replaced_def row_conditions_def)
  qed
qed

lemma process_row_orig:
  assumes run: "process_row conv cols graphs relevant_locs row (h, orig, others, cte) = Inr st"
    and mols: "\<forall>g \<in> set graphs. mol_at orig (r_key g)"
  shows "fst (snd st) = orig"
proof -
  obtain h' orig' others' cte' where st: "st = (h', orig', others', cte')" by (cases st) auto
  from run obtain cs where "getitem orig ''conditions'' = Inr cs"
    by (auto simp: process_row_def bnd_Inr)
  then have cs: "map_of orig ''conditions'' = Some cs"
    by (auto simp: getitem_def split: option.splits)
  from process_row_step [OF run [unfolded st] mols cs] st show ?thesis by simp
qed

lemma process_rows:
  assumes mols: "\<forall>g \<in> set graphs. mol_at orig (r_key g)"
    and cs: "map_of orig ''conditions'' = Some cs"
  shows "foldE (process_row conv cols graphs relevant_locs) rws (h, orig, others, cte)
           = Inr (h', orig', others', cte')
         \<Longrightarrow> orig' = orig
             \<and> (\<exists>new. others' = others @ new
                    \<and> length new = length (filter (row_replaced cols cs) rws))
             \<and> cte' = cte @ map (row_conditions cols cs) (filter (\<lambda>row. \<not> row_replaced cols cs row) rws)"
proof (induction rws arbitrary: h others cte)
  case Nil
  then show ?case by simp
next
  case (Cons row rws)
  from Cons.prems obtain st where st: "process_row conv cols graphs relevant_locs row (h, orig, others, cte) = Inr st"
    and rest: "foldE (process_row conv cols graphs relevant_locs) rws st = Inr (h', orig', others', cte')"
    by (auto simp: bnd_Inr)
  obtain h1 o1 others1 cte1 where st_eq: "st = (h1, o1, others1, cte1)" by (cases st) auto
  note step = process_row_step [OF st [unfolded st_eq] mols cs]
  then have o1: "o1 = orig" by simp
  note IH = Cons.IH [OF rest [unfolded st_eq o1]]
  show ?case
  proof (cases "row_replaced cols cs row")
    case True
    with step obtain new where "others1 = others @ [new]" "cte1 = cte" by auto
    with IH True show ?thesis by auto
  next
    case False
    with step have "others1 = others" "cte1 = cte @ [row_conditions cols cs row]" by auto
    with IH False show ?thesis by auto
  qed
qed

lemma process_table_shape:
  assumes run: "process_table predict conv fig res = Inr res'"
    and tc: "table_content fig = Some cont"
    and rs: "reactions res = orig # others"
    and dist: "distinct (map fst orig)"
  shows "\<exists>cs new. map_of orig ''conditions'' = Some cs
           \<and> length new = length (filter (row_replaced (columns cont) cs) (rows cont))
           \<and> res' = res\<lparr>page := Some (fig_page fig),
                         reactions :=
                           AList.update ''conditions''
                             (Sub cs # map (\<lambda>row. Sub (row_conditions (columns cont) cs row))
                                           (filter (\<lambda>row. \<not> row_replaced (columns cont) cs row) (rows cont)))
                             orig
                           # others @ new\<rparr>"
proof -
  from run tc rs obtain gs where gab: "get_atoms_and_bonds (predict (fig_image fig)) orig = Inr gs"
    and rest1: "(case alloc_graphs [] gs of (h, graphs) \<Rightarrow>
               bnd (find_relevant_groups h graphs (columns cont)) (\<lambda>relevant_locs.
               bnd (foldE (process_row conv (columns cont) graphs relevant_locs)
                          (rows cont) (h, orig, others, []))
                   (\<lambda>(h', orig', others', conditions_to_extend).
               bnd (getitem orig' ''conditions'') (\<lambda>conditions.
               Inr (res\<lparr>page := Some (fig_page fig), reactions :=
                      AList.update ''conditions'' (Sub conditions # map Sub conditions_to_extend) orig'
                      # others'\<rparr>))))) = Inr res'"
    by (auto simp: process_table_def Let_def bnd_Inr)
  obtain h graphs where ag: "alloc_graphs [] gs = (h, graphs)" by (cases "alloc_graphs [] gs")
  from rest1 ag obtain locs st where
    loop: "foldE (process_row conv (columns cont) graphs locs) (rows cont) (h, orig, others, []) = Inr st"
    and fin: "(case st of (h', orig', others', conditions_to_extend) \<Rightarrow>
               bnd (getitem orig' ''conditions'') (\<lambda>conditions.
               Inr (res\<lparr>page := Some (fig_page fig), reactions :=
                      AList.update ''conditions'' (Sub conditions # map Sub conditions_to_extend) orig'
                      # others'\<rparr>))) = Inr res'"
    by (auto simp: bnd_Inr)
  obtain h' orig' others' cte where st: "st = (h', orig', others', cte)" by (cases st) auto
  from fin st obtain cs where cs': "getitem orig' ''conditions'' = Inr cs"
    and res': "res' = res\<lparr>page := Some (fig_page fig), reactions :=
                      AList.update ''conditions'' (Sub cs # map Sub cte) orig' # others'\<rparr>"
    by (auto simp: bnd_Inr)
  have mols: "\<forall>g \<in> set graphs. mol_at orig (r_key g)"
  proof
    fix g assume "g \<in> set graphs"
    then have "r_key g \<in> set (map key gs)" using alloc_graphs_keys [OF ag] by (metis image_eqI set_map)
    then obtain g0 where "g0 \<in> set gs" "key g0 = r_key g" by auto
    with get_atoms_and_bonds_keys [OF gab dist] show "mol_at orig (r_key g)" by metis
  qed
  have "fst (snd st) = orig"
  proof (rule foldE_inv [where I = "\<lambda>st. fst (snd st) = orig", OF _ _ loop])
    show "fst (snd (h, orig, others, [])) = orig" by simp
  next
    fix row s t
    assume "fst (snd s) = orig" "process_row conv (columns cont) graphs locs row s = Inr t"
    then show "fst (snd t) = orig"
      by (cases s) (auto dest: process_row_orig [OF _ mols])
  qed
  then have orig_eq: "orig' = orig" using st by simp
  have cs: "map_of orig ''conditions'' = Some cs"
    using cs' orig_eq by (auto simp: getitem_def split: option.splits)
  from process_rows [OF mols cs loop [unfolded st]] obtain new where
    "others' = others @ new" "length new = length (filter (row_replaced (columns cont) cs) (rows cont))"
    "cte = map (row_conditions (columns cont) cs) (filter (\<lambda>row. \<not> row_replaced (columns cont) cs row) (rows cont))"
    by auto
  with res' orig_eq cs show ?thesis by (auto simp: comp_def)
qed

lemma ex_run1:
  "process_table (\<lambda>_. ex_predict_images) ex_convert (ex_figure ex_rows) ex_result = Inr ex_result1"
  by code_simp

lemma ex_run2:
  "process_table (\<lambda>_. ex_predict_images) ex_convert (ex_figure ex_rows) ex_result1 = Inr ex_result2"
  by code_simp

lemma ex_relabel: 
  "relabel_graphs ex_heap [ex_gref] [(0, [(''R'', 1)])] [(''R'', ''Me'')] = Inr (ex_heap', [ex_gref'])"
  by code_simp

lemma ex_replaced:
  "get_replaced_reaction ex_convert ex_heap ex_orig_reaction [ex_gref] [(0, [(''R'', 1)])] [(''R'', ''Me'')]
     = Inr (ex_heap', ex_orig_reaction, ex_instance ex_cond)"
  by code_simp

lemma ex_graph_of: "graph_of ex_heap ex_gref = Inr ex_graph"
  by code_simp

lemma ex_zero: "process_tables (\<lambda>_. ex_predict_images) ex_convert [ex_figure []] [ex_result]
     = Inr [\<lparr>reactions = [AList.update ''conditions'' [Sub ex_cond] ex_orig_reaction],
              page = Some (VObj 3)\<rparr>]"
  by code_simp

lemma ex_one: "process_tables (\<lambda>_. ex_predict_images) ex_convert [ex_figure [[''Me'', ''85%'']]] [ex_result]
     = Inr [\<lparr>reactions = [AList.update ''conditions'' [Sub ex_cond] ex_orig_reaction,
                           ex_instance (ex_cond @ [ex_table_entry ''85%''])],
              page = Some (VObj 3)\<rparr>]"
  by code_simp

lemma ex_twice: "process_tables (\<lambda>_. ex_predict_images) ex_convert [ex_figure ex_rows] [ex_result1]
     = Inr [ex_result2]"
  by code_simp

lemma row_step_same_flag:
  "\<exists>rg1 ec1 rg2 ec2 rep1.
     row_step z (rg, ec, rep) = (rg1, ec1, rep1) \<and> row_step z (rg', ec', rep) = (rg2, ec2, rep1)"
  by (cases z) (auto simp: row_step_def split: option.splits)

lemma row_step_replaced:
  "snd (snd (fold row_step zs (rg, ec, rep))) = snd (snd (fold row_step zs (rg', ec', rep)))"
proof (induction zs arbitrary: rg ec rep rg' ec')
  case Nil
  then show ?case by simp
next
  case (Cons z zs)
  from row_step_same_flag [of z rg ec rep rg' ec'] obtain rg1 ec1 rg2 ec2 rep1
    where 1: "row_step z (rg, ec, rep) = (rg1, ec1, rep1)"
      and 2: "row_step z (rg', ec', rep) = (rg2, ec2, rep1)" by blast
  from Cons.IH [of rg1 ec1 rep1 rg2 ec2] 1 2 show ?case by simp
qed

lemma row_replaced_conditions: "row_replaced cols cs row = row_replaced cols cs' row"
  unfolding row_replaced_def scan_row_def by (rule row_step_replaced)

lemma wrap_neq: "cs \<noteq> Sub cs # more_items"
proof
  assume "cs = Sub cs # more_items"
  then have "size_list size cs = size_list size (Sub cs # more_items)" by simp
  then show False by simp
qed

text \<open>
  Claim C4, as amended. For a figure with table content and a template with at least one
  reaction, a run that returns sets the page and replaces the condition list \<open>c\<close> of the
  original instance by the list of \<open>c\<close> itself followed by the extended condition list
  of every row that yielded no substitution, whether or not another row yielded one; one
  instance is appended per row that yielded a substitution. For a table with zero rows
  the condition list becomes the one-element list holding \<open>c\<close> and nothing is appended.
\<close>

theorem process_table_wraps_conditions:
  assumes "process_table predict_images convert_graph_to_output fig res = Inr res'"
    and "table_content fig = Some cont"
    and "reactions res = orig_reaction # others"
    and "distinct (map fst orig_reaction)"
  shows "\<exists>conditions new.
           map_of orig_reaction ''conditions'' = Some conditions
           \<and> length new = length (filter (row_replaced (columns cont) conditions) (rows cont))
           \<and> page res' = Some (fig_page fig)
           \<and> reactions res' =
               AList.update ''conditions''
                 (Sub conditions
                  # map (\<lambda>row. Sub (row_conditions (columns cont) conditions row))
                        (filter (\<lambda>row. \<not> row_replaced (columns cont) conditions row) (rows cont)))
                 orig_reaction
               # others @ new
           \<and> (rows cont = [] \<longrightarrow>
                 reactions res' = AList.update ''conditions'' [Sub conditions] orig_reaction # others)
           \<and> reactions res' \<noteq> reactions res"
proof -
  from process_table_shape [OF assms] obtain cs new where
    cs: "map_of orig_reaction ''conditions'' = Some cs"
    and new: "length new = length (filter (row_replaced (columns cont) cs) (rows cont))"
    and res': "res' = res\<lparr>page := Some (fig_page fig),
                         reactions :=
                           AList.update ''conditions''
                             (Sub cs # map (\<lambda>row. Sub (row_conditions (columns cont) cs row))
                                           (filter (\<lambda>row. \<not> row_replaced (columns cont) cs row) (rows cont)))
                             orig_reaction
                           # others @ new\<rparr>"
    by blast
  let ?w = "Sub cs # map (\<lambda>row. Sub (row_conditions (columns cont) cs row))
                         (filter (\<lambda>row. \<not> row_replaced (columns cont) cs row) (rows cont))"
  have "map_of (AList.update ''conditions'' ?w orig_reaction) ''conditions'' = Some ?w"
    by (simp add: update_conv')
  then have "AList.update ''conditions'' ?w orig_reaction \<noteq> orig_reaction"
    using cs wrap_neq [of cs] by (metis option.inject)
  then have "reactions res' \<noteq> reactions res" using res' assms(3) by simp
  moreover have "rows cont = [] \<longrightarrow>
                 reactions res' = AList.update ''conditions'' [Sub cs] orig_reaction # others"
    using res' new by auto
  ultimately show ?thesis using cs new res' by auto
qed

theorem process_table_wraps_conditions_witness:
  "process_table (\<lambda>_. ex_predict_images) ex_convert (ex_figure ex_rows) ex_result = Inr ex_result1
   \<and> table_content (ex_figure ex_rows) = Some \<lparr>columns = ex_columns, rows = ex_rows\<rparr>
   \<and> reactions ex_result = ex_orig_reaction # []
   \<and> distinct (map fst ex_orig_reaction)
   \<and> page ex_result1 = Some (VObj 3)
   \<and> reactions ex_result1 \<noteq> reactions ex_result"
proof -
  have tc: "table_content (ex_figure ex_rows) = Some \<lparr>columns = ex_columns, rows = ex_rows\<rparr>"
    by (simp add: ex_figure_def)
  have rs: "reactions ex_result = ex_orig_reaction # []" by (simp add: ex_result_def)
  have d: "distinct (map fst ex_orig_reaction)" by (simp add: ex_orig_reaction_def)
  from process_table_wraps_conditions [OF ex_run1 tc rs d] ex_run1 tc rs d
  show ?thesis by (auto simp: ex_figure_def)
qed

theorem process_tables_zero_rows_counterexample:
  "process_tables (\<lambda>_. ex_predict_images) ex_convert [ex_figure []] [ex_result]
     = Inr [\<lparr>reactions = [AList.update ''conditions'' [Sub ex_cond] ex_orig_reaction],
              page = Some (VObj 3)\<rparr>]
   \<and> AList.update ''conditions'' [Sub ex_cond] ex_orig_reaction \<noteq> ex_orig_reaction
   \<and> process_tables (\<lambda>_. ex_predict_images) ex_convert [ex_figure [[''Me'', ''85%'']]] [ex_result]
     = Inr [\<lparr>reactions = [AList.update ''conditions'' [Sub ex_cond] ex_orig_reaction,
                           ex_instance (ex_cond @ [ex_table_entry ''85%''])],
              page = Some (VObj 3)\<rparr>]"
proof -
  have "AList.update ''conditions'' [Sub ex_cond] ex_orig_reaction \<noteq> ex_orig_reaction"
    by (simp add: ex_orig_reaction_def ex_cond_def)
  with ex_zero ex_one show ?thesis by simp
qed

text \<open>
  Claim C5, as amended. A second run over the same figure and the template that the first
  run left is not idempotent: it appends again one instance per row that yields a
  substitution, as many as the first run, and wraps the condition list of the original
  instance once more.
\<close>

theorem process_table_twice:
  assumes run1: "process_table predict_images convert_graph_to_output fig res = Inr res1"
    and run2: "process_table predict_images convert_graph_to_output fig res1 = Inr res2"
    and tc: "table_content fig = Some cont"
    and rs: "reactions res = orig_reaction # others"
    and dist: "distinct (map fst orig_reaction)"
  shows "\<exists>conditions conditions1 extended2.
           map_of orig_reaction ''conditions'' = Some conditions
           \<and> map_of (hd (reactions res1)) ''conditions'' = Some conditions1
           \<and> hd conditions1 = Sub conditions
           \<and> map_of (hd (reactions res2)) ''conditions'' = Some (Sub conditions1 # extended2)
           \<and> length (reactions res1)
               = length (reactions res) + length (filter (row_replaced (columns cont) conditions) (rows cont))
           \<and> length (reactions res2)
               = length (reactions res1) + length (filter (row_replaced (columns cont) conditions) (rows cont))
           \<and> res2 \<noteq> res1"
proof -
  from process_table_shape [OF run1 tc rs dist] obtain cs new where
    cs: "map_of orig_reaction ''conditions'' = Some cs"
    and new: "length new = length (filter (row_replaced (columns cont) cs) (rows cont))"
    and res1: "res1 = res\<lparr>page := Some (fig_page fig),
                         reactions :=
                           AList.update ''conditions''
                             (Sub cs # map (\<lambda>row. Sub (row_conditions (columns cont) cs row))
                                           (filter (\<lambda>row. \<not> row_replaced (columns cont) cs row) (rows cont)))
                             orig_reaction
                           # others @ new\<rparr>"
    by blast
  let ?cs1 = "Sub cs # map (\<lambda>row. Sub (row_conditions (columns cont) cs row))
                           (filter (\<lambda>row. \<not> row_replaced (columns cont) cs row) (rows cont))"
  let ?orig1 = "AList.update ''conditions'' ?cs1 orig_reaction"
  have rs1: "reactions res1 = ?orig1 # (others @ new)" using res1 by simp
  have dist1: "distinct (map fst ?orig1)" using dist by (simp add: distinct_update)
  have cs1: "map_of ?orig1 ''conditions'' = Some ?cs1" by (simp add: update_conv')
  from process_table_shape [OF run2 tc rs1 dist1] cs1 obtain new2 where
    new2: "length new2 = length (filter (row_replaced (columns cont) ?cs1) (rows cont))"
    and res2: "res2 = res1\<lparr>page := Some (fig_page fig),
                         reactions :=
                           AList.update ''conditions''
                             (Sub ?cs1 # map (\<lambda>row. Sub (row_conditions (columns cont) ?cs1 row))
                                           (filter (\<lambda>row. \<not> row_replaced (columns cont) ?cs1 row) (rows cont)))
                             ?orig1
                           # (others @ new) @ new2\<rparr>"
    by auto
  have "row_replaced (columns cont) ?cs1 = row_replaced (columns cont) cs"
    by (rule ext) (rule row_replaced_conditions)
  then have k2: "length new2 = length (filter (row_replaced (columns cont) cs) (rows cont))"
    using new2 by simp
  let ?ext2 = "map (\<lambda>row. Sub (row_conditions (columns cont) ?cs1 row))
                   (filter (\<lambda>row. \<not> row_replaced (columns cont) ?cs1 row) (rows cont))"
  have c2: "map_of (hd (reactions res2)) ''conditions'' = Some (Sub ?cs1 # ?ext2)"
    using res2 by (simp add: update_conv')
  have c1: "map_of (hd (reactions res1)) ''conditions'' = Some ?cs1"
    using rs1 cs1 by simp
  have neq: "res2 \<noteq> res1"
  proof
    assume "res2 = res1"
    with c1 c2 have "?cs1 = Sub ?cs1 # ?ext2" by simp
    then show False using wrap_neq by blast
  qed
  have l1: "length (reactions res1)
               = length (reactions res) + length (filter (row_replaced (columns cont) cs) (rows cont))"
    using rs1 rs new by simp
  have l2: "length (reactions res2)
               = length (reactions res1) + length (filter (row_replaced (columns cont) cs) (rows cont))"
    using res2 rs1 k2 by simp
  have h: "hd ?cs1 = Sub cs" by simp
  from cs c1 h c2 l1 l2 neq show ?thesis by blast
qed

theorem process_table_twice_witness:
  "process_table (\<lambda>_. ex_predict_images) ex_convert (ex_figure ex_rows) ex_result = Inr ex_result1
   \<and> process_table (\<lambda>_. ex_predict_images) ex_convert (ex_figure ex_rows) ex_result1 = Inr ex_result2
   \<and> table_content (ex_figure ex_rows) = Some \<lparr>columns = ex_columns, rows = ex_rows\<rparr>
   \<and> reactions ex_result = ex_orig_reaction # []
   \<and> distinct (map fst ex_orig_reaction)
   \<and> ex_result2 \<noteq> ex_result1"
proof -
  have tc: "table_content (ex_figure ex_rows) = Some \<lparr>columns = ex_columns, rows = ex_rows\<rparr>"
    by (simp add: ex_figure_def)
  have rs: "reactions ex_result = ex_orig_reaction # []" by (simp add: ex_result_def)
  have d: "distinct (map fst ex_orig_reaction)" by (simp add: ex_orig_reaction_def)
  from process_table_twice [OF ex_run1 ex_run2 tc rs d] ex_run1 ex_run2 tc rs d
  show ?thesis by blast
qed

theorem process_tables_twice_counterexample:
  "process_tables (\<lambda>_. ex_predict_images) ex_convert [ex_figure ex_rows] [ex_result] = Inr [ex_result1]
   \<and> process_tables (\<lambda>_. ex_predict_images) ex_convert [ex_figure ex_rows] [ex_result1] = Inr [ex_result2]
   \<and> length (reactions ex_result1) = 2 \<and> length (reactions ex_result2) = 3"
proof -
  have "process_tables (\<lambda>_. ex_predict_images) ex_convert [ex_figure ex_rows] [ex_result] = Inr [ex_result1]"
    using ex_run1 by (simp add: bnd_def)
  moreover have "length (reactions ex_result1) = 2 \<and> length (reactions ex_result2) = 3"
    by (simp add: ex_result1_def ex_result2_def)
  ultimately show ?thesis using ex_twice by simp
qed

theorem get_replaced_reaction_frame_witness:
  "get_replaced_reaction ex_convert ex_heap ex_orig_reaction [ex_gref] [(0, [(''R'', 1)])] [(''R'', ''Me'')]
     = Inr (ex_heap', ex_orig_reaction, ex_instance ex_cond)
   \<and> ex_gref \<in> set [ex_gref] \<and> graph_of ex_heap ex_gref = Inr ex_graph
   \<and> graph_of ex_heap' ex_gref = Inr ex_graph
   \<and> (1::nat) < length ex_heap \<and> ex_heap' ! 1 = ex_heap ! 1
   \<and> \<not> located_mapped [(0, [(''R'', 1)])] [(''R'', ''Me'')] 0 0
   \<and> get_symbols ex_heap (r_symbols ex_gref) = Inr [''C'', ''[R]'']
   \<and> get_symbols ex_heap' (r_symbols ex_gref') = Inr [''C'', ''Me'']"
proof -
  note t = get_replaced_reaction_frame [OF ex_replaced]
  have 1: "graph_of ex_heap ex_gref = Inr ex_graph" by (rule ex_graph_of)
  from t 1 have 2: "graph_of ex_heap' ex_gref = Inr ex_graph" by simp
  have 3: "(1::nat) < length ex_heap" by (simp add: ex_heap_def)
  from t 3 have 4: "ex_heap' ! 1 = ex_heap ! 1" by blast
  have 5: "\<not> located_mapped [(0, [(''R'', 1)])] [(''R'', ''Me'')] 0 0"
    by (simp add: located_mapped_def)
  have 6: "get_symbols ex_heap (r_symbols ex_gref) = Inr [''C'', ''[R]'']"
    by (simp add: get_symbols_def ex_heap_def ex_gref_def)
  have 7: "get_symbols ex_heap' (r_symbols ex_gref') = Inr [''C'', ''Me'']"
    by (simp add: get_symbols_def ex_heap'_def ex_heap_def ex_gref'_def)
  from ex_replaced 1 2 3 4 5 6 7 show ?thesis by simp
qed

end
